theory Spec2Isabelle
  imports Main "HOL-Library.Finite_Map"
begin

section \<open>Data model\<close>

text \<open>
  An operator is an opaque object that exposes an ordered sequence of wire labels.
  Python compares and hashes operators by object identity; the field \<open>ident\<close> stands
  for that identity, so two operators on the same wires can still be different members
  of a set.
\<close>

datatype 'w operator = Operator (ident: nat) (wires: "'w list")

text \<open>
  The wire map is a Python dict from wire labels to non-negative integers (the
  docstring of \<^verbatim>\<open>drawable_layers\<close>): a finite map into \<open>nat\<close>.
\<close>

type_synonym 'w wire_map = "('w, nat) fmap"

text \<open>
  \<open>KeyError w\<close> is the failed dict lookup \<^verbatim>\<open>wire_map[w]\<close>; \<open>IndexError\<close> is a list
  index out of range.
\<close>

datatype 'w error = KeyError 'w | IndexError

type_synonym 'w grid = "'w operator option list list"

section \<open>Iteration that may raise\<close>

text \<open>A \<^verbatim>\<open>for\<close> loop whose body may raise: the first error ends the loop.\<close>

fun for_each :: "('s \<Rightarrow> 'a \<Rightarrow> 'e + 's) \<Rightarrow> 'a list \<Rightarrow> 's \<Rightarrow> 'e + 's" where
  "for_each body [] s = Inr s"
| "for_each body (x # xs) s =
     (case body s x of Inl e \<Rightarrow> Inl e | Inr s' \<Rightarrow> for_each body xs s')"

section \<open>The placement search\<close>

text \<open>
  \<^verbatim>\<open>_recursive_find_layer\<close>. The list read \<^verbatim>\<open>occupied_wires_per_layer[layer_to_check]\<close>
  raises when the index is past the end; a Python set is true when it is not empty.
\<close>

function recursive_find_layer :: "nat \<Rightarrow> nat set \<Rightarrow> nat set list \<Rightarrow> 'w error + nat" where
  "recursive_find_layer layer_to_check op_occupied_wires occupied_wires_per_layer =
     (if length occupied_wires_per_layer \<le> layer_to_check then Inl IndexError
      else if occupied_wires_per_layer ! layer_to_check \<inter> op_occupied_wires \<noteq> {}
        then Inr (layer_to_check + 1)
      else if layer_to_check = 0 then Inr 0
      else recursive_find_layer (layer_to_check - 1) op_occupied_wires occupied_wires_per_layer)"
  by pat_completeness auto
termination
  by (relation "measure (\<lambda>(l, w, occ). l)") auto

declare recursive_find_layer.simps [simp del]

section \<open>Layer assignment\<close>

text \<open>The mutable locals of \<^verbatim>\<open>drawable_layers\<close>.\<close>

record 'w layers_state =
  max_layer :: nat
  occupied_wires_per_layer :: "nat set list"
  ops_in_layer :: "'w operator set list"

text \<open>
  Modelled from the spec: \<^verbatim>\<open>default_wire_map\<close> lives in \<^verbatim>\<open>circuit_drawer/utils.py\<close>, which
  is not among the sources. The spec says it numbers the wire labels by first occurrence
  over the input operations.
\<close>

definition default_wire_map :: "'w operator list \<Rightarrow> 'w wire_map" where
  "default_wire_map ops =
     (let used_wires = rev (remdups (rev (concat (map wires ops))))
      in fmap_of_list (zip used_wires [0..<length used_wires]))"

text \<open>
  The set comprehension \<^verbatim>\<open>{wire_map[wire] for wire in op.wires}\<close>: the wires are looked
  up in order and the first absent one raises.
\<close>

fun map_wires :: "'w wire_map \<Rightarrow> 'w list \<Rightarrow> 'w error + nat set" where
  "map_wires wire_map [] = Inr {}"
| "map_wires wire_map (wire # ws) =
     (case fmlookup wire_map wire of
        None \<Rightarrow> Inl (KeyError wire)
      | Some i \<Rightarrow> (case map_wires wire_map ws of Inl e \<Rightarrow> Inl e | Inr S \<Rightarrow> Inr (insert i S)))"

text \<open>The first half of the loop body: the wires the drawn operation covers.\<close>

definition op_occupied_wires :: "'w wire_map \<Rightarrow> 'w operator \<Rightarrow> 'w error + nat set" where
  "op_occupied_wires wire_map op =
     (if length (wires op) = 0 then Inr (fset (fmran wire_map))
      else (case map_wires wire_map (wires op) of
              Inl e \<Rightarrow> Inl e
            | Inr mapped_wires \<Rightarrow>
                (let min_wire = Min mapped_wires; max_wire = Max mapped_wires
                 in Inr (set [min_wire..<max_wire + 1]))))"

text \<open>The layer the search resolves for an operation in a given state.\<close>

definition find_op_layer :: "'w wire_map \<Rightarrow> 'w layers_state \<Rightarrow> 'w operator \<Rightarrow> 'w error + nat" where
  "find_op_layer wire_map s op =
     (case op_occupied_wires wire_map op of
        Inl e \<Rightarrow> Inl e
      | Inr occ \<Rightarrow> recursive_find_layer (max_layer s) occ (occupied_wires_per_layer s))"

text \<open>A fresh layer is appended when the resolved layer is past the last one.\<close>

definition add_new_layer :: "nat \<Rightarrow> 'w layers_state \<Rightarrow> 'w layers_state" where
  "add_new_layer op_layer s =
     (if max_layer s < op_layer
      then \<lparr>max_layer = max_layer s + 1,
            occupied_wires_per_layer = occupied_wires_per_layer s @ [{}],
            ops_in_layer = ops_in_layer s @ [{}]\<rparr>
      else s)"

text \<open>
  \<^verbatim>\<open>ops_in_layer[op_layer].add(op)\<close> and
  \<^verbatim>\<open>occupied_wires_per_layer[op_layer].update(op_occupied_wires)\<close>; either list read
  raises when \<open>op_layer\<close> is out of range.
\<close>

definition add_to_layer :: "nat \<Rightarrow> 'w operator \<Rightarrow> nat set \<Rightarrow> 'w layers_state \<Rightarrow> 'w error + 'w layers_state" where
  "add_to_layer op_layer op occ s =
     (if length (ops_in_layer s) \<le> op_layer \<or> length (occupied_wires_per_layer s) \<le> op_layer
      then Inl IndexError
      else Inr \<lparr>max_layer = max_layer s,
                occupied_wires_per_layer =
                  (occupied_wires_per_layer s)[op_layer := occupied_wires_per_layer s ! op_layer \<union> occ],
                ops_in_layer = (ops_in_layer s)[op_layer := insert op (ops_in_layer s ! op_layer)]\<rparr>)"

text \<open>One iteration of the loop over the operations.\<close>

definition layers_step :: "'w wire_map \<Rightarrow> 'w layers_state \<Rightarrow> 'w operator \<Rightarrow> 'w error + 'w layers_state" where
  "layers_step wire_map s op =
     (case op_occupied_wires wire_map op of
        Inl e \<Rightarrow> Inl e
      | Inr occ \<Rightarrow>
          (case recursive_find_layer (max_layer s) occ (occupied_wires_per_layer s) of
             Inl e \<Rightarrow> Inl e
           | Inr op_layer \<Rightarrow> add_to_layer op_layer op occ (add_new_layer op_layer s)))"

definition init_state :: "'w layers_state" where
  "init_state = \<lparr>max_layer = 0, occupied_wires_per_layer = [{}], ops_in_layer = [{}]\<rparr>"

definition run_layers :: "'w wire_map \<Rightarrow> 'w operator list \<Rightarrow> 'w error + 'w layers_state" where
  "run_layers wire_map ops = for_each (layers_step wire_map) ops init_state"

definition resolve_wire_map :: "'w operator list \<Rightarrow> 'w wire_map option \<Rightarrow> 'w wire_map" where
  "resolve_wire_map ops wire_map =
     (case wire_map of None \<Rightarrow> default_wire_map ops | Some m \<Rightarrow> m)"

definition drawable_layers :: "'w operator list \<Rightarrow> 'w wire_map option \<Rightarrow> 'w error + 'w operator set list" where
  "drawable_layers ops wire_map =
     (case run_layers (resolve_wire_map ops wire_map) ops of
        Inl e \<Rightarrow> Inl e
      | Inr s \<Rightarrow> Inr (ops_in_layer s))"

text \<open>
  The layer resolved for the operation at position \<open>k\<close> of the input: the result of the
  search in the state the loop has reached after the first \<open>k\<close> operations.
\<close>

definition assigned_layer :: "'w wire_map \<Rightarrow> 'w operator list \<Rightarrow> nat \<Rightarrow> 'w error + nat" where
  "assigned_layer wire_map ops k =
     (case run_layers wire_map (take k ops) of
        Inl e \<Rightarrow> Inl e
      | Inr s \<Rightarrow> find_op_layer wire_map s (ops ! k))"

section \<open>The grid\<close>

text \<open>The assignment \<^verbatim>\<open>grid[wire][layer] = op\<close>; both list indices may be out of range.\<close>

definition grid_set :: "nat \<Rightarrow> 'w operator \<Rightarrow> 'w grid \<Rightarrow> nat \<Rightarrow> 'w error + 'w grid" where
  "grid_set layer op grid wire =
     (if length grid \<le> wire \<or> length (grid ! wire) \<le> layer then Inl IndexError
      else Inr (grid[wire := (grid ! wire)[layer := Some op]]))"

definition grid_set_label :: "'w wire_map \<Rightarrow> nat \<Rightarrow> 'w operator \<Rightarrow> 'w grid \<Rightarrow> 'w \<Rightarrow> 'w error + 'w grid" where
  "grid_set_label wire_map layer op grid wire =
     (case fmlookup wire_map wire of
        None \<Rightarrow> Inl (KeyError wire)
      | Some i \<Rightarrow> grid_set layer op grid i)"

text \<open>The body of the loop over the operations of one layer.\<close>

definition grid_fill_op :: "'w wire_map \<Rightarrow> nat \<Rightarrow> nat \<Rightarrow> 'w grid \<Rightarrow> 'w operator \<Rightarrow> 'w error + 'w grid" where
  "grid_fill_op wire_map n_wires layer grid op =
     (case (if length (wires op) = 0 then for_each (grid_set layer op) [0..<n_wires] grid
            else Inr grid) of
        Inl e \<Rightarrow> Inl e
      | Inr grid' \<Rightarrow> for_each (grid_set_label wire_map layer op) (wires op) grid')"

text \<open>
  \<^verbatim>\<open>drawable_grid\<close>. Python visits the members of a set in an order the language does not
  fix, so the order is a parameter: \<open>set_iter L\<close> is the sequence in which the loop
  \<^verbatim>\<open>for op in layer_ops\<close> visits the layer \<open>L\<close>.
\<close>

definition grid_fill_layer :: "('w operator set \<Rightarrow> 'w operator list) \<Rightarrow> 'w wire_map \<Rightarrow> nat \<Rightarrow> 'w grid
    \<Rightarrow> nat \<times> 'w operator set \<Rightarrow> 'w error + 'w grid" where
  "grid_fill_layer set_iter wire_map n_wires grid p =
     (case p of (layer, layer_ops) \<Rightarrow>
        for_each (grid_fill_op wire_map n_wires layer) (set_iter layer_ops) grid)"

definition drawable_grid :: "('w operator set \<Rightarrow> 'w operator list) \<Rightarrow> 'w operator list
    \<Rightarrow> 'w wire_map option \<Rightarrow> 'w error + 'w grid" where
  "drawable_grid set_iter ops wire_map =
     (let wm = resolve_wire_map ops wire_map;
          n_wires = fcard (fmdom wm)
      in if length ops = 0 then
           (if n_wires = 0 then Inr [[]] else Inr (replicate n_wires []))
         else
           (case drawable_layers ops (Some wm) of
              Inl e \<Rightarrow> Inl e
            | Inr layers \<Rightarrow>
                (let n_layers = length layers;
                     grid = replicate n_wires (replicate n_layers None)
                 in for_each (grid_fill_layer set_iter wm n_wires)
                      (zip [0..<n_layers] layers) grid)))"

section \<open>Notions of the specification\<close>

text \<open>The wire map covers the operations: every wire label they reference is a key.\<close>

definition covers :: "'w wire_map \<Rightarrow> 'w operator list \<Rightarrow> bool" where
  "covers wire_map ops = (\<forall>op \<in> set ops. \<forall>w \<in> set (wires op). fmlookup wire_map w \<noteq> None)"

text \<open>The indices the wire map gives to the wires an operation references.\<close>

definition mapped_indices :: "'w wire_map \<Rightarrow> 'w operator \<Rightarrow> nat set" where
  "mapped_indices wire_map op = (\<Union>w \<in> set (wires op). set_option (fmlookup wire_map w))"

text \<open>
  The OccupiedSet of the specification: every index of the wire map for an operation
  without wires, otherwise the inclusive range from the least to the greatest mapped index.
  Lemma \<open>op_occupied_wires_total\<close> below shows that, for covered wires, it is the set the loop
  body computes.
\<close>

definition occupied_set :: "'w wire_map \<Rightarrow> 'w operator \<Rightarrow> nat set" where
  "occupied_set wire_map op =
     (if wires op = [] then fset (fmran wire_map)
      else {Min (mapped_indices wire_map op) .. Max (mapped_indices wire_map op)})"

text \<open>The operations and the occupied wires of layer \<open>l\<close>, empty past the last layer.\<close>

definition layer_ops :: "'w layers_state \<Rightarrow> nat \<Rightarrow> 'w operator set" where
  "layer_ops s l = (if l < length (ops_in_layer s) then ops_in_layer s ! l else {})"

definition layer_occ :: "'w layers_state \<Rightarrow> nat \<Rightarrow> nat set" where
  "layer_occ s l = (if l < length (occupied_wires_per_layer s) then occupied_wires_per_layer s ! l else {})"

text \<open>Both lists of the state have \<open>max_layer + 1\<close> entries.\<close>

definition shape :: "'w layers_state \<Rightarrow> bool" where
  "shape s = (length (ops_in_layer s) = max_layer s + 1 \<and>
              length (occupied_wires_per_layer s) = max_layer s + 1)"

text \<open>The input positions whose operation is assigned layer \<open>l\<close>.\<close>

definition placed :: "'w wire_map \<Rightarrow> 'w operator list \<Rightarrow> nat \<Rightarrow> nat set" where
  "placed wire_map ops l = {k. k < length ops \<and> assigned_layer wire_map ops k = Inr l}"

text \<open>
  The invariant of the loop after the operations \<open>xs\<close>: each layer holds the operations
  assigned to it and the union of their occupied sets, every position has a layer, and no
  layer but the initial one is ever empty.
\<close>

definition run_inv :: "'w wire_map \<Rightarrow> 'w operator list \<Rightarrow> 'w layers_state \<Rightarrow> bool" where
  "run_inv wm xs s =
     (shape s \<and>
      (\<forall>l. layer_ops s l = (\<lambda>k. xs ! k) ` placed wm xs l) \<and>
      (\<forall>l. layer_occ s l = (\<Union>k \<in> placed wm xs l. occupied_set wm (xs ! k))) \<and>
      (\<forall>k < length xs. \<exists>l \<le> max_layer s. assigned_layer wm xs k = Inr l) \<and>
      (\<forall>l. 0 < l \<and> l \<le> max_layer s \<longrightarrow> placed wm xs l \<noteq> {}) \<and>
      (xs \<noteq> [] \<longrightarrow> placed wm xs 0 \<noteq> {}) \<and>
      covers wm xs)"

text \<open>A grid of \<open>n\<close> rows with \<open>m\<close> columns each.\<close>

definition grid_dims :: "'w grid \<Rightarrow> nat \<Rightarrow> nat \<Rightarrow> bool" where
  "grid_dims g n m = (length g = n \<and> (\<forall>row \<in> set g. length row = m))"

text \<open>The rows \<^verbatim>\<open>drawable_grid\<close> writes for an operation in the column of its layer.\<close>

definition op_rows :: "'w wire_map \<Rightarrow> nat \<Rightarrow> 'w operator \<Rightarrow> nat set" where
  "op_rows wire_map n_wires op =
     (if wires op = [] then {0..<n_wires} else mapped_indices wire_map op)"

text \<open>
  The WireMap of the specification: the indices are exactly \<open>0..<n\<close> for \<open>n\<close> wire labels
  (so the map is injective, lemma \<open>dense_inj\<close>).
\<close>

definition dense_wire_map :: "'w wire_map \<Rightarrow> bool" where
  "dense_wire_map wire_map = (fset (fmran wire_map) = {0..<fcard (fmdom wire_map)})"

text \<open>\<open>set_iter\<close> visits exactly the members of each layer.\<close>

definition iterates :: "('w operator set \<Rightarrow> 'w operator list) \<Rightarrow> 'w operator set list \<Rightarrow> bool" where
  "iterates set_iter layers = (\<forall>L \<in> set layers. set (set_iter L) = L)"

text \<open>The first wire label, in processing order, that the wire map lacks.\<close>

definition first_absent :: "'w wire_map \<Rightarrow> 'w operator list \<Rightarrow> 'w option" where
  "first_absent wire_map ops =
     List.find (\<lambda>w. fmlookup wire_map w = None) (concat (map wires ops))"

text \<open>
  Every mapped wire index of every operation is a row of the grid, that is, below the
  number of labels of the wire map.
\<close>

definition rows_in_range :: "'w wire_map \<Rightarrow> 'w operator list \<Rightarrow> bool" where
  "rows_in_range wire_map ops =
     (\<forall>op \<in> set ops. \<forall>i \<in> mapped_indices wire_map op. i < fcard (fmdom wire_map))"

text \<open>One possible iteration order of a layer: its members in the order of the input.\<close>

definition iter_in_order :: "'w operator list \<Rightarrow> 'w operator set \<Rightarrow> 'w operator list" where
  "iter_in_order ops L = filter (\<lambda>op. op \<in> L) ops"

section \<open>Auxiliary lemmas\<close>

lemma for_each_append:
  "for_each body (xs @ ys) s =
     (case for_each body xs s of Inl e \<Rightarrow> Inl e | Inr s' \<Rightarrow> for_each body ys s')"
  by (induction xs arbitrary: s) (auto split: sum.splits)

lemma recursive_find_layer_spec:
  "m < length occ \<Longrightarrow>
   \<exists>r. (recursive_find_layer m S occ :: 'w error + nat) = Inr r \<and> r \<le> m + 1 \<and>
       (\<forall>i. r \<le> i \<and> i \<le> m \<longrightarrow> occ ! i \<inter> S = {}) \<and>
       (0 < r \<longrightarrow> occ ! (r - 1) \<inter> S \<noteq> {})"
proof (induction m)
  case 0
  then show ?case by (simp add: recursive_find_layer.simps)
next
  case (Suc m)
  show ?case
  proof (cases "occ ! Suc m \<inter> S \<noteq> {}")
    case True
    with Suc.prems show ?thesis by (auto simp: recursive_find_layer.simps)
  next
    case False
    from Suc have "m < length occ" by simp
    from Suc.IH[OF this] obtain r where
      r: "(recursive_find_layer m S occ :: 'w error + nat) = Inr r" "r \<le> m + 1"
         "\<forall>i. r \<le> i \<and> i \<le> m \<longrightarrow> occ ! i \<inter> S = {}" "0 < r \<longrightarrow> occ ! (r - 1) \<inter> S \<noteq> {}"
      by blast
    have "(recursive_find_layer (Suc m) S occ :: 'w error + nat) = Inr r"
      using False Suc.prems r(1) by (subst recursive_find_layer.simps) simp
    moreover have "\<forall>i. r \<le> i \<and> i \<le> Suc m \<longrightarrow> occ ! i \<inter> S = {}"
      using r(3) False by (auto simp: le_Suc_eq)
    ultimately show ?thesis using r(2,4) by auto
  qed
qed

lemma recursive_find_layer_error:
  "(recursive_find_layer m S occ :: 'w error + nat) = Inl e \<Longrightarrow> length occ \<le> m \<and> e = IndexError"
  using recursive_find_layer_spec[of m occ S, where 'w='w] by (cases "m < length occ") (auto simp: recursive_find_layer.simps)

subsection \<open>Mapping the wires of an operation\<close>

lemma map_wires_Inr:
  "map_wires wm ws = Inr S \<Longrightarrow>
     S = {i. \<exists>w \<in> set ws. fmlookup wm w = Some i} \<and> (\<forall>w \<in> set ws. fmlookup wm w \<noteq> None)"
  by (induction ws arbitrary: S) (auto split: option.splits sum.splits)

lemma map_wires_Inl:
  "map_wires wm ws = Inl e \<Longrightarrow> \<exists>w \<in> set ws. e = KeyError w \<and> fmlookup wm w = None"
  by (induction ws) (auto split: option.splits sum.splits)

lemma map_wires_total:
  "\<forall>w \<in> set ws. fmlookup wm w \<noteq> None \<Longrightarrow> \<exists>S. map_wires wm ws = Inr S"
  by (cases "map_wires wm ws") (fastforce dest: map_wires_Inl)+

lemma mapped_indices_iff:
  "i \<in> mapped_indices wm op \<longleftrightarrow> (\<exists>w \<in> set (wires op). fmlookup wm w = Some i)"
  by (auto simp: mapped_indices_def)

lemma finite_mapped_indices: "finite (mapped_indices wm op)"
  by (simp add: mapped_indices_def)

lemma map_wires_mapped_indices:
  "map_wires wm (wires op) = Inr S \<Longrightarrow> S = mapped_indices wm op"
  by (auto dest!: map_wires_Inr simp: mapped_indices_iff)

lemma op_occupied_wires_Inr:
  "op_occupied_wires wm op = Inr S \<Longrightarrow>
     (\<forall>w \<in> set (wires op). fmlookup wm w \<noteq> None) \<and> S = occupied_set wm op"
  by (auto simp: op_occupied_wires_def occupied_set_def Let_def
      split: if_splits sum.splits dest: map_wires_Inr map_wires_mapped_indices)

lemma op_occupied_wires_Inl:
  "op_occupied_wires wm op = Inl e \<Longrightarrow> \<exists>w \<in> set (wires op). e = KeyError w \<and> fmlookup wm w = None"
  by (auto simp: op_occupied_wires_def Let_def split: if_splits sum.splits dest: map_wires_Inl)

lemma op_occupied_wires_occupied_set:
  "op_occupied_wires wm op = Inr S \<Longrightarrow> occupied_set wm op = S"
  using op_occupied_wires_Inr by blast

lemma op_occupied_wires_total:
  assumes "\<forall>w \<in> set (wires op). fmlookup wm w \<noteq> None"
  shows "op_occupied_wires wm op = Inr (occupied_set wm op)"
proof (cases "op_occupied_wires wm op")
  case (Inl e)
  from op_occupied_wires_Inl[OF Inl] assms show ?thesis by auto
next
  case (Inr S)
  then show ?thesis by (simp add: op_occupied_wires_Inr)
qed

subsection \<open>One step of the loop\<close>

lemma layers_step_effect:
  fixes wm :: "'w wire_map"
  assumes "shape s" and "op_occupied_wires wm op = Inr S"
  shows "\<exists>r s'. find_op_layer wm s op = Inr r \<and> layers_step wm s op = Inr s' \<and> shape s' \<and>
           r \<le> max_layer s + 1 \<and> max_layer s' = max (max_layer s) r \<and>
           layer_ops s' = (layer_ops s)(r := insert op (layer_ops s r)) \<and>
           layer_occ s' = (layer_occ s)(r := layer_occ s r \<union> S) \<and>
           (\<forall>i. r \<le> i \<and> i \<le> max_layer s \<longrightarrow> layer_occ s i \<inter> S = {}) \<and>
           (0 < r \<longrightarrow> layer_occ s (r - 1) \<inter> S \<noteq> {})"
proof -
  let ?occ = "occupied_wires_per_layer s"
  have len: "max_layer s < length ?occ" using assms(1) by (simp add: shape_def)
  from recursive_find_layer_spec[OF len, of S, where 'w='w] obtain r where
    r: "(recursive_find_layer (max_layer s) S ?occ :: 'w error + nat) = Inr r" "r \<le> max_layer s + 1"
       "\<forall>i. r \<le> i \<and> i \<le> max_layer s \<longrightarrow> ?occ ! i \<inter> S = {}" "0 < r \<longrightarrow> ?occ ! (r - 1) \<inter> S \<noteq> {}"
    by blast
  have f: "find_op_layer wm s op = Inr r" by (simp add: find_op_layer_def assms(2) r(1))
  define s' where "s' = \<lparr>max_layer = max (max_layer s) r,
      occupied_wires_per_layer = (if max_layer s < r then ?occ @ [{}] else ?occ)
         [r := (if max_layer s < r then ?occ @ [{}] else ?occ) ! r \<union> S],
      ops_in_layer = (if max_layer s < r then ops_in_layer s @ [{}] else ops_in_layer s)
         [r := insert op ((if max_layer s < r then ops_in_layer s @ [{}] else ops_in_layer s) ! r)]\<rparr>"
  have st: "layers_step wm s op = Inr s'"
    using assms(1) r(2)
    by (auto simp: layers_step_def assms(2) r(1) add_to_layer_def add_new_layer_def shape_def s'_def max_def)
  have sh: "shape s'" using assms(1) r(2) by (auto simp: shape_def s'_def)
  have lo: "layer_ops s' = (layer_ops s)(r := insert op (layer_ops s r))"
    using assms(1) r(2)
    by (auto simp: fun_eq_iff layer_ops_def s'_def shape_def nth_append nth_list_update)
  have lc: "layer_occ s' = (layer_occ s)(r := layer_occ s r \<union> S)"
    using assms(1) r(2)
    by (auto simp: fun_eq_iff layer_occ_def s'_def shape_def nth_append nth_list_update)
  have a: "\<forall>i. r \<le> i \<and> i \<le> max_layer s \<longrightarrow> layer_occ s i \<inter> S = {}"
    using r(3) len by (auto simp: layer_occ_def)
  have b: "0 < r \<longrightarrow> layer_occ s (r - 1) \<inter> S \<noteq> {}"
    using r(4) r(2) len by (auto simp: layer_occ_def)
  have m: "max_layer s' = max (max_layer s) r" by (simp add: s'_def)
  from f st sh r(2) m lo lc a b show ?thesis by blast
qed

lemma layers_step_Inl:
  assumes "shape s" and "layers_step wm s op = Inl e"
  shows "\<exists>w \<in> set (wires op). e = KeyError w \<and> fmlookup wm w = None"
proof (cases "op_occupied_wires wm op")
  case (Inl e')
  with assms(2) have "e' = e" by (simp add: layers_step_def)
  with Inl show ?thesis by (auto dest: op_occupied_wires_Inl)
next
  case (Inr S)
  from layers_step_effect[OF assms(1) Inr] assms(2) show ?thesis by auto
qed

subsection \<open>The loop, position by position\<close>

lemma shape_init: "shape init_state"
  by (simp add: shape_def init_state_def)

lemma run_layers_Nil: "run_layers wm [] = Inr init_state"
  by (simp add: run_layers_def)

lemma run_layers_snoc:
  "run_layers wm (xs @ [x]) =
     (case run_layers wm xs of Inl e \<Rightarrow> Inl e | Inr s \<Rightarrow> layers_step wm s x)"
  by (simp add: run_layers_def for_each_append split: sum.splits)

lemma run_layers_append_Inr:
  "run_layers wm (xs @ ys) = Inr s \<Longrightarrow> \<exists>s0. run_layers wm xs = Inr s0"
  by (simp add: run_layers_def for_each_append split: sum.splits)

lemma run_layers_take:
  "run_layers wm xs = Inr s \<Longrightarrow> \<exists>s0. run_layers wm (take k xs) = Inr s0"
  using run_layers_append_Inr[of wm "take k xs" "drop k xs" s] by simp

lemma assigned_layer_append:
  "k < length xs \<Longrightarrow> assigned_layer wm (xs @ ys) k = assigned_layer wm xs k"
  by (simp add: assigned_layer_def nth_append split: sum.splits)

lemma assigned_layer_last:
  "assigned_layer wm (xs @ [x]) (length xs) =
     (case run_layers wm xs of Inl e \<Rightarrow> Inl e | Inr s \<Rightarrow> find_op_layer wm s x)"
  by (simp add: assigned_layer_def split: sum.splits)

lemma placed_snoc:
  "placed wm (xs @ [x]) l =
     placed wm xs l \<union> (if assigned_layer wm (xs @ [x]) (length xs) = Inr l then {length xs} else {})"
  by (auto simp: placed_def assigned_layer_append less_Suc_eq)

lemma placed_less: "k \<in> placed wm xs l \<Longrightarrow> k < length xs"
  by (simp add: placed_def)

lemma run_inv_Nil: "run_inv wm [] init_state"
  by (auto simp: run_inv_def shape_def placed_def covers_def layer_ops_def layer_occ_def init_state_def)

lemma run_inv_step:
  fixes wm :: "'w wire_map"
  assumes inv: "run_inv wm xs s" and run: "run_layers wm xs = Inr s"
    and st: "layers_step wm s x = Inr s'"
  shows "run_inv wm (xs @ [x]) s'"
proof -
  from inv have sh: "shape s" by (simp add: run_inv_def)
  from st obtain S where S: "op_occupied_wires wm x = Inr S"
    by (cases "op_occupied_wires wm x") (auto simp: layers_step_def)
  have occx: "occupied_set wm x = S" using S by (rule op_occupied_wires_occupied_set)
  from layers_step_effect[OF sh S] st obtain r where
    r: "find_op_layer wm s x = Inr r" "shape s'" "r \<le> max_layer s + 1"
       "max_layer s' = max (max_layer s) r"
       "layer_ops s' = (layer_ops s)(r := insert x (layer_ops s r))"
       "layer_occ s' = (layer_occ s)(r := layer_occ s r \<union> S)"
    by auto
  have al: "assigned_layer wm (xs @ [x]) (length xs) = Inr r"
    by (simp add: assigned_layer_last run r(1))
  have pl: "\<And>l. placed wm (xs @ [x]) l = placed wm xs l \<union> (if l = r then {length xs} else {})"
    by (auto simp: placed_snoc al)
  have nth_old: "\<And>l k. k \<in> placed wm xs l \<Longrightarrow> (xs @ [x]) ! k = xs ! k"
    by (simp add: placed_def nth_append)
  have c1: "\<forall>l. layer_ops s' l = (\<lambda>k. (xs @ [x]) ! k) ` placed wm (xs @ [x]) l"
  proof
    fix l
    have "(\<lambda>k. (xs @ [x]) ! k) ` placed wm xs l = (\<lambda>k. xs ! k) ` placed wm xs l"
      by (rule image_cong) (auto simp: nth_old)
    then show "layer_ops s' l = (\<lambda>k. (xs @ [x]) ! k) ` placed wm (xs @ [x]) l"
      using inv by (auto simp: r(5) pl run_inv_def image_Un)
  qed
  have c2: "\<forall>l. layer_occ s' l = (\<Union>k \<in> placed wm (xs @ [x]) l. occupied_set wm ((xs @ [x]) ! k))"
  proof
    fix l
    have "(\<Union>k \<in> placed wm xs l. occupied_set wm ((xs @ [x]) ! k))
        = (\<Union>k \<in> placed wm xs l. occupied_set wm (xs ! k))"
      by (rule SUP_cong) (auto simp: nth_old)
    then show "layer_occ s' l = (\<Union>k \<in> placed wm (xs @ [x]) l. occupied_set wm ((xs @ [x]) ! k))"
      using inv by (auto simp: r(6) pl run_inv_def occx)
  qed
  have c3: "\<forall>k < length (xs @ [x]). \<exists>l \<le> max_layer s'. assigned_layer wm (xs @ [x]) k = Inr l"
  proof (intro allI impI)
    fix k assume "k < length (xs @ [x])"
    then consider "k < length xs" | "k = length xs" by fastforce
    then show "\<exists>l \<le> max_layer s'. assigned_layer wm (xs @ [x]) k = Inr l"
    proof cases
      case 1
      with inv obtain l where "l \<le> max_layer s" "assigned_layer wm xs k = Inr l"
        by (auto simp: run_inv_def)
      with 1 show ?thesis by (auto simp: assigned_layer_append r(4))
    next
      case 2
      then show ?thesis using al r(4) by auto
    qed
  qed
  have c4: "\<forall>l. 0 < l \<and> l \<le> max_layer s' \<longrightarrow> placed wm (xs @ [x]) l \<noteq> {}"
  proof (intro allI impI)
    fix l assume l: "0 < l \<and> l \<le> max_layer s'"
    show "placed wm (xs @ [x]) l \<noteq> {}"
    proof (cases "l \<le> max_layer s")
      case True
      with l inv have "placed wm xs l \<noteq> {}" by (simp add: run_inv_def)
      then show ?thesis by (simp add: pl)
    next
      case False
      with l r(3,4) have "l = r" by (simp add: max_def split: if_splits)
      then show ?thesis by (simp add: pl)
    qed
  qed
  have c5: "placed wm (xs @ [x]) 0 \<noteq> {}"
  proof (cases "xs = []")
    case True
    with run have "s = init_state" by (simp add: run_layers_Nil)
    then have "max_layer s = 0" "occupied_wires_per_layer s = [{}]" by (simp_all add: init_state_def)
    with r(1) S have "r = 0" by (simp add: find_op_layer_def recursive_find_layer.simps)
    then show ?thesis by (simp add: pl)
  next
    case False
    with inv have "placed wm xs 0 \<noteq> {}" by (simp add: run_inv_def)
    then show ?thesis by (simp add: pl)
  qed
  have c6: "covers wm (xs @ [x])"
    using inv op_occupied_wires_Inr[OF S] by (auto simp: run_inv_def covers_def)
  from r(2) c1 c2 c3 c4 c5 c6 show ?thesis by (simp add: run_inv_def)
qed

lemma run_layers_inv: "run_layers wm xs = Inr s \<Longrightarrow> run_inv wm xs s"
proof (induction xs arbitrary: s rule: rev_induct)
  case Nil
  then show ?case by (simp add: run_layers_Nil run_inv_Nil)
next
  case (snoc x xs)
  from snoc.prems obtain s0 where s0: "run_layers wm xs = Inr s0" "layers_step wm s0 x = Inr s"
    by (auto simp: run_layers_snoc split: sum.splits)
  from run_inv_step[OF snoc.IH[OF s0(1)] s0(1) s0(2)] show ?case .
qed

subsection \<open>Totality and the layer of each position\<close>

lemma run_layers_total:
  "covers wm xs \<Longrightarrow> \<exists>s. run_layers wm xs = Inr s"
proof (induction xs rule: rev_induct)
  case Nil
  show ?case by (simp add: run_layers_Nil)
next
  case (snoc x xs)
  then obtain s where s: "run_layers wm xs = Inr s" by (auto simp: covers_def)
  then have sh: "shape s" using run_layers_inv by (auto simp: run_inv_def)
  have "op_occupied_wires wm x = Inr (occupied_set wm x)"
    using snoc.prems by (intro op_occupied_wires_total) (simp add: covers_def)
  from layers_step_effect[OF sh this] show ?case by (auto simp: run_layers_snoc s)
qed

lemma run_layers_covers: "run_layers wm xs = Inr s \<Longrightarrow> covers wm xs"
  using run_layers_inv by (auto simp: run_inv_def)

lemma assigned_layer_search:
  fixes wm :: "'w wire_map"
  assumes run: "run_layers wm xs = Inr s" and q: "q < length xs"
  shows "\<exists>sq b. run_layers wm (take q xs) = Inr sq \<and> run_inv wm (take q xs) sq \<and>
           assigned_layer wm xs q = Inr b \<and> b \<le> max_layer sq + 1 \<and>
           (\<forall>i. b \<le> i \<and> i \<le> max_layer sq \<longrightarrow> layer_occ sq i \<inter> occupied_set wm (xs ! q) = {}) \<and>
           (0 < b \<longrightarrow> layer_occ sq (b - 1) \<inter> occupied_set wm (xs ! q) \<noteq> {})"
proof -
  from run_layers_take[OF run] obtain sq where sq: "run_layers wm (take q xs) = Inr sq" by blast
  then have inv: "run_inv wm (take q xs) sq" by (rule run_layers_inv)
  then have sh: "shape sq" by (simp add: run_inv_def)
  have "covers wm xs" using run by (rule run_layers_covers)
  with q have "\<forall>w \<in> set (wires (xs ! q)). fmlookup wm w \<noteq> None" by (auto simp: covers_def)
  then have S: "op_occupied_wires wm (xs ! q) = Inr (occupied_set wm (xs ! q))"
    by (rule op_occupied_wires_total)
  from layers_step_effect[OF sh S] obtain b where
    b: "find_op_layer wm sq (xs ! q) = Inr b" "b \<le> max_layer sq + 1"
       "\<forall>i. b \<le> i \<and> i \<le> max_layer sq \<longrightarrow> layer_occ sq i \<inter> occupied_set wm (xs ! q) = {}"
       "0 < b \<longrightarrow> layer_occ sq (b - 1) \<inter> occupied_set wm (xs ! q) \<noteq> {}"
    by blast
  have "assigned_layer wm xs q = Inr b" by (simp add: assigned_layer_def sq b(1))
  with sq inv b show ?thesis by blast
qed

lemma assigned_layer_take:
  "p < q \<Longrightarrow> q \<le> length xs \<Longrightarrow> assigned_layer wm (take q xs) p = assigned_layer wm xs p"
  by (simp add: assigned_layer_def min_def split: sum.splits)

lemma conflict_later_layer:
  fixes wm :: "'w wire_map"
  assumes run: "run_layers wm xs = Inr s" and pq: "p < q" "q < length xs"
    and conflict: "occupied_set wm (xs ! p) \<inter> occupied_set wm (xs ! q) \<noteq> {}"
  shows "\<exists>a b. assigned_layer wm xs p = Inr a \<and> assigned_layer wm xs q = Inr b \<and> a < b"
proof -
  from assigned_layer_search[OF run pq(2)] obtain sq b where
    sq: "run_inv wm (take q xs) sq" "assigned_layer wm xs q = Inr b"
        "\<forall>i. b \<le> i \<and> i \<le> max_layer sq \<longrightarrow> layer_occ sq i \<inter> occupied_set wm (xs ! q) = {}"
    by blast
  have plen: "p < length (take q xs)" using pq by simp
  with sq(1) obtain a where a: "a \<le> max_layer sq" "assigned_layer wm (take q xs) p = Inr a"
    by (auto simp: run_inv_def)
  then have ap: "assigned_layer wm xs p = Inr a" using pq by (simp add: assigned_layer_take)
  have "p \<in> placed wm (take q xs) a" using plen a(2) by (simp add: placed_def)
  moreover have "layer_occ sq a = (\<Union>k \<in> placed wm (take q xs) a. occupied_set wm (take q xs ! k))"
    using sq(1) by (simp add: run_inv_def)
  ultimately have "occupied_set wm (take q xs ! p) \<subseteq> layer_occ sq a" by blast
  then have "occupied_set wm (xs ! p) \<subseteq> layer_occ sq a" using pq by simp
  with conflict have "layer_occ sq a \<inter> occupied_set wm (xs ! q) \<noteq> {}" by blast
  with sq(3) a(1) have "\<not> b \<le> a" by blast
  with ap sq(2) show ?thesis by auto
qed

lemma drawable_layers_Some:
  "drawable_layers ops (Some wm) = (case run_layers wm ops of Inl e \<Rightarrow> Inl e | Inr s \<Rightarrow> Inr (ops_in_layer s))"
  by (simp add: drawable_layers_def resolve_wire_map_def)

lemma layer_ops_nth:
  "l < length (ops_in_layer s) \<Longrightarrow> ops_in_layer s ! l = layer_ops s l"
  by (simp add: layer_ops_def)

lemma mapped_subset_occupied:
  "wires op \<noteq> [] \<Longrightarrow> mapped_indices wm op \<subseteq> occupied_set wm op"
  by (auto simp: occupied_set_def finite_mapped_indices)

lemma mapped_nonempty_wires: "k \<in> mapped_indices wm op \<Longrightarrow> wires op \<noteq> []"
  by (auto simp: mapped_indices_def)

lemma run_layers_final_layers:
  assumes "run_layers wm xs = Inr s"
  shows "length (ops_in_layer s) = max_layer s + 1"
    and "l \<le> max_layer s \<Longrightarrow> ops_in_layer s ! l = (\<lambda>k. xs ! k) ` placed wm xs l"
proof -
  from run_layers_inv[OF assms] have inv: "run_inv wm xs s" .
  then show len: "length (ops_in_layer s) = max_layer s + 1" by (simp add: run_inv_def shape_def)
  assume "l \<le> max_layer s"
  with len have "ops_in_layer s ! l = layer_ops s l" by (simp add: layer_ops_def)
  with inv show "ops_in_layer s ! l = (\<lambda>k. xs ! k) ` placed wm xs l" by (simp add: run_inv_def)
qed

lemma recursive_find_layer_Max:
  assumes "m < length occ"
  shows "(recursive_find_layer m S occ :: 'w error + nat) =
     Inr (if \<exists>i \<le> m. occ ! i \<inter> S \<noteq> {} then Suc (Max {i. i \<le> m \<and> occ ! i \<inter> S \<noteq> {}}) else 0)"
proof -
  let ?C = "{i. i \<le> m \<and> occ ! i \<inter> S \<noteq> {}}"
  from recursive_find_layer_spec[OF assms, of S, where 'w='w] obtain r where
    r: "(recursive_find_layer m S occ :: 'w error + nat) = Inr r" "r \<le> m + 1"
       "\<forall>i. r \<le> i \<and> i \<le> m \<longrightarrow> occ ! i \<inter> S = {}" "0 < r \<longrightarrow> occ ! (r - 1) \<inter> S \<noteq> {}"
    by blast
  have fin: "finite ?C" by simp
  show ?thesis
  proof (cases "r = 0")
    case True
    with r(3) have "\<not> (\<exists>i \<le> m. occ ! i \<inter> S \<noteq> {})" by auto
    with True r(1) show ?thesis by simp
  next
    case False
    then have mem: "r - 1 \<in> ?C" using r(2,4) by auto
    have ub: "i \<le> r - 1" if "i \<in> ?C" for i
    proof -
      from that r(3) have "\<not> r \<le> i" by auto
      then show ?thesis by simp
    qed
    have "Max ?C = r - 1" using fin ub mem by (rule Max_eqI)
    moreover have "\<exists>i \<le> m. occ ! i \<inter> S \<noteq> {}" using mem by auto
    ultimately show ?thesis using r(1) False by simp
  qed
qed

text \<open>
  C10. With no operations, \<open>drawable_layers\<close> returns the one-element list holding the empty
  layer, for every wire map (given or defaulted); and whatever the operations, a returned
  layer sequence has at least one layer.
\<close>

theorem drawable_layers_no_ops:
  "drawable_layers [] wire_map = Inr [{}] \<and>
   (\<forall>ops layers. drawable_layers ops wire_map = Inr layers \<longrightarrow> 1 \<le> length layers)"
proof
  show "drawable_layers [] wire_map = Inr [{}]"
    by (simp add: drawable_layers_def run_layers_Nil init_state_def)
  show "\<forall>ops layers. drawable_layers ops wire_map = Inr layers \<longrightarrow> 1 \<le> length layers"
  proof (intro allI impI)
    fix ops layers
    assume "drawable_layers ops wire_map = Inr layers"
    then obtain s where s: "run_layers (resolve_wire_map ops wire_map) ops = Inr s"
      and l: "layers = ops_in_layer s"
      by (auto simp: drawable_layers_def split: sum.splits)
    from run_layers_final_layers(1)[OF s] l show "1 \<le> length layers" by simp
  qed
qed

theorem drawable_layers_no_ops_witness:
  "drawable_layers ([] :: nat operator list) (Some (fmap_of_list [(0, 0), (1, 1)])) = Inr [{}] \<and>
   drawable_layers [Operator 0 [0], Operator 1 [0 :: nat]] (Some (fmap_of_list [(0, 0), (1, 1)]))
     = Inr [{Operator 0 [0]}, {Operator 1 [0]}] \<and>
   1 \<le> length [{Operator 0 [0]}, {Operator 1 [0 :: nat]}]"
proof -
  have h: "drawable_layers [Operator 0 [0], Operator 1 [0 :: nat]] (Some (fmap_of_list [(0, 0), (1, 1)]))
     = Inr [{Operator 0 [0]}, {Operator 1 [0]}]"
    by code_simp
  from drawable_layers_no_ops[of "Some (fmap_of_list [(0 :: nat, 0), (1, 1)])"] h
  show ?thesis by blast
qed

text \<open>
  C2. In every state the loop of \<open>drawable_layers\<close> reaches, the search for an operation with
  occupied wires \<open>S\<close> starts at \<open>max_layer\<close> and returns a layer \<open>r\<close>: it is
  \<open>max_layer + 1\<close> when layer \<open>max_layer\<close> conflicts; otherwise it is one more than the
  highest conflicting layer, or \<open>0\<close> when no layer conflicts. Equivalently \<open>r\<close> starts the
  longest run of conflict-free layers that ends at \<open>max_layer\<close>: the layers \<open>r..max_layer\<close> are
  conflict-free and layer \<open>r - 1\<close>, if there is one, conflicts.
\<close>

theorem placement_search:
  fixes wm :: "'w wire_map"
  assumes "run_layers wm pre = Inr s" and "op_occupied_wires wm op = Inr S"
  shows "\<exists>r. (recursive_find_layer (max_layer s) S (occupied_wires_per_layer s) :: 'w error + nat) = Inr r \<and>
     find_op_layer wm s op = Inr r \<and>
     (occupied_wires_per_layer s ! max_layer s \<inter> S \<noteq> {} \<longrightarrow> r = max_layer s + 1) \<and>
     r = (if \<exists>i \<le> max_layer s. occupied_wires_per_layer s ! i \<inter> S \<noteq> {}
          then Suc (Max {i. i \<le> max_layer s \<and> occupied_wires_per_layer s ! i \<inter> S \<noteq> {}})
          else 0) \<and>
     r \<le> max_layer s + 1 \<and>
     (\<forall>i. r \<le> i \<and> i \<le> max_layer s \<longrightarrow> occupied_wires_per_layer s ! i \<inter> S = {}) \<and>
     (0 < r \<longrightarrow> occupied_wires_per_layer s ! (r - 1) \<inter> S \<noteq> {})"
proof -
  let ?occ = "occupied_wires_per_layer s"
  from run_layers_inv[OF assms(1)] have len: "max_layer s < length ?occ"
    by (simp add: run_inv_def shape_def)
  from recursive_find_layer_spec[OF len, of S, where 'w='w] obtain r where
    r: "(recursive_find_layer (max_layer s) S ?occ :: 'w error + nat) = Inr r" "r \<le> max_layer s + 1"
       "\<forall>i. r \<le> i \<and> i \<le> max_layer s \<longrightarrow> ?occ ! i \<inter> S = {}" "0 < r \<longrightarrow> ?occ ! (r - 1) \<inter> S \<noteq> {}"
    by blast
  have f: "find_op_layer wm s op = Inr r" by (simp add: find_op_layer_def assms(2) r(1))
  have top: "?occ ! max_layer s \<inter> S \<noteq> {} \<longrightarrow> r = max_layer s + 1"
  proof
    assume c: "?occ ! max_layer s \<inter> S \<noteq> {}"
    with r(3) have "\<not> r \<le> max_layer s" by auto
    with r(2) show "r = max_layer s + 1" by simp
  qed
  have mx: "r = (if \<exists>i \<le> max_layer s. ?occ ! i \<inter> S \<noteq> {}
          then Suc (Max {i. i \<le> max_layer s \<and> ?occ ! i \<inter> S \<noteq> {}}) else 0)"
    using recursive_find_layer_Max[OF len, of S, where 'w='w] r(1) by simp
  from r f top mx show ?thesis by blast
qed

theorem placement_search_witness:
  "\<exists>r. find_op_layer (fmap_of_list [(0 :: nat, 0), (1, 1)])
         \<lparr>max_layer = 1, occupied_wires_per_layer = [{0, 1}, {0}],
          ops_in_layer = [{Operator 0 [0, 1]}, {Operator 1 [0]}]\<rparr> (Operator 2 [1]) = Inr r \<and>
       r \<le> max_layer \<lparr>max_layer = 1, occupied_wires_per_layer = [{0, 1}, {0}],
          ops_in_layer = [{Operator 0 [0, 1]}, {Operator 1 [0 :: nat]}]\<rparr> + 1"
proof -
  let ?wm = "fmap_of_list [(0 :: nat, 0 :: nat), (1, 1)]"
  let ?s = "\<lparr>max_layer = 1, occupied_wires_per_layer = [{0, 1}, {0}],
          ops_in_layer = [{Operator 0 [0, 1]}, {Operator 1 [0 :: nat]}]\<rparr>"
  have a: "run_layers ?wm [Operator 0 [0, 1], Operator 1 [0]] = Inr ?s"
    by code_simp
  have b: "op_occupied_wires ?wm (Operator 2 [1]) = Inr {1}"
    by code_simp
  from placement_search[OF a b] show ?thesis by blast
qed

lemma drawable_layers_total:
  assumes "covers wm ops"
  shows "\<exists>s. run_layers wm ops = Inr s \<and> drawable_layers ops (Some wm) = Inr (ops_in_layer s)"
  using run_layers_total[OF assms] by (auto simp: drawable_layers_Some)

lemma same_layer_disjoint:
  fixes wm :: "'w wire_map"
  assumes run: "run_layers wm xs = Inr s"
    and k: "k1 \<in> placed wm xs l" "k2 \<in> placed wm xs l" "k1 \<noteq> k2"
  shows "occupied_set wm (xs ! k1) \<inter> occupied_set wm (xs ! k2) = {}"
proof (rule ccontr)
  assume c: "occupied_set wm (xs ! k1) \<inter> occupied_set wm (xs ! k2) \<noteq> {}"
  from k have a: "k1 < length xs" "k2 < length xs"
    "assigned_layer wm xs k1 = Inr l" "assigned_layer wm xs k2 = Inr l"
    by (simp_all add: placed_def)
  from k(3) consider "k1 < k2" | "k2 < k1" by fastforce
  then show False
  proof cases
    case 1
    from conflict_later_layer[OF run 1 a(2) c] a(3,4) show False by simp
  next
    case 2
    from c have "occupied_set wm (xs ! k2) \<inter> occupied_set wm (xs ! k1) \<noteq> {}" by blast
    from conflict_later_layer[OF run 2 a(1) this] a(3,4) show False by simp
  qed
qed

text \<open>
  C1. When the wire map covers every wire label the operations reference, \<open>drawable_layers\<close>
  returns a layer list, and in each of its layers any two different operations have disjoint
  occupied sets (the span from the least to the greatest mapped index for an operation with
  wires, every index of the wire map for one without).
\<close>

theorem layers_non_overlap:
  fixes wm :: "'w wire_map"
  assumes "covers wm ops"
  shows "\<exists>layers. drawable_layers ops (Some wm) = Inr layers \<and>
           (\<forall>L \<in> set layers. \<forall>a \<in> L. \<forall>b \<in> L. a \<noteq> b \<longrightarrow>
              occupied_set wm a \<inter> occupied_set wm b = {})"
proof -
  from drawable_layers_total[OF assms] obtain s where
    s: "run_layers wm ops = Inr s" "drawable_layers ops (Some wm) = Inr (ops_in_layer s)"
    by blast
  have "occupied_set wm a \<inter> occupied_set wm b = {}"
    if L: "L \<in> set (ops_in_layer s)" and ab: "a \<in> L" "b \<in> L" "a \<noteq> b" for L a b
  proof -
    from L obtain l where l: "l < length (ops_in_layer s)" "L = ops_in_layer s ! l"
      by (auto simp: in_set_conv_nth)
    with run_layers_final_layers[OF s(1)] have "L = (\<lambda>k. ops ! k) ` placed wm ops l" by simp
    with ab obtain k1 k2 where
      k: "k1 \<in> placed wm ops l" "k2 \<in> placed wm ops l" "a = ops ! k1" "b = ops ! k2" by auto
    with ab(3) have "k1 \<noteq> k2" by auto
    from same_layer_disjoint[OF s(1) k(1,2) this] k(3,4) show ?thesis by simp
  qed
  with s(2) show ?thesis by blast
qed

theorem layers_non_overlap_witness:
  "drawable_layers [Operator 0 [0, 2], Operator 1 [3], Operator 2 [1 :: nat]]
       (Some (fmap_of_list [(0, 0), (1, 1), (2, 2), (3, 3)]))
     = Inr [{Operator 0 [0, 2], Operator 1 [3]}, {Operator 2 [1]}] \<and>
   occupied_set (fmap_of_list [(0 :: nat, 0), (1, 1), (2, 2), (3, 3)]) (Operator 0 [0, 2]) \<inter>
   occupied_set (fmap_of_list [(0 :: nat, 0), (1, 1), (2, 2), (3, 3)]) (Operator 1 [3]) = {}"
proof -
  let ?wm = "fmap_of_list [(0 :: nat, 0 :: nat), (1, 1), (2, 2), (3, 3)]"
  let ?ops = "[Operator 0 [0, 2], Operator 1 [3], Operator 2 [1 :: nat]]"
  have c: "covers ?wm ?ops"
    by (simp add: covers_def fmlookup_of_list)
  have e: "drawable_layers ?ops (Some ?wm) = Inr [{Operator 0 [0, 2], Operator 1 [3]}, {Operator 2 [1]}]"
    by code_simp
  from layers_non_overlap[OF c] e
  have "\<forall>L \<in> set [{Operator 0 [0, 2], Operator 1 [3]}, {Operator 2 [1 :: nat]}].
          \<forall>a \<in> L. \<forall>b \<in> L. a \<noteq> b \<longrightarrow> occupied_set ?wm a \<inter> occupied_set ?wm b = {}"
    by simp
  then have "occupied_set ?wm (Operator 0 [0, 2]) \<inter> occupied_set ?wm (Operator 1 [3]) = {}"
    by simp
  with e show ?thesis by simp
qed

text \<open>
  C3. Let the operation at position \<open>p\<close> have wires whose mapped indices have minimum \<open>i\<close>
  and maximum \<open>j\<close>, \<open>i < j\<close>. Every operation at a later position \<open>q\<close> with a mapped wire
  index anywhere in \<open>i..j\<close>, endpoint or not, is assigned a layer of strictly greater index,
  and the returned layers hold the two operations at the assigned indices.
\<close>

theorem blocking_by_span:
  fixes wm :: "'w wire_map"
  assumes "covers wm ops" and "p < q" and "q < length ops"
    and "wires (ops ! p) \<noteq> []"
    and "i = Min (mapped_indices wm (ops ! p))" and "j = Max (mapped_indices wm (ops ! p))"
    and "i < j"
    and "\<exists>k \<in> mapped_indices wm (ops ! q). i \<le> k \<and> k \<le> j"
  shows "\<exists>layers a b. drawable_layers ops (Some wm) = Inr layers \<and>
           assigned_layer wm ops p = Inr a \<and> assigned_layer wm ops q = Inr b \<and>
           a < b \<and> b < length layers \<and> ops ! p \<in> layers ! a \<and> ops ! q \<in> layers ! b"
proof -
  from drawable_layers_total[OF assms(1)] obtain s where
    s: "run_layers wm ops = Inr s" "drawable_layers ops (Some wm) = Inr (ops_in_layer s)"
    by blast
  from assms(8) obtain k where k: "k \<in> mapped_indices wm (ops ! q)" "i \<le> k" "k \<le> j" by blast
  have "k \<in> occupied_set wm (ops ! q)"
    using k(1) mapped_subset_occupied[OF mapped_nonempty_wires[OF k(1)]] by blast
  moreover have "k \<in> occupied_set wm (ops ! p)"
    using k(2,3) assms(4,5,6) by (simp add: occupied_set_def)
  ultimately have c: "occupied_set wm (ops ! p) \<inter> occupied_set wm (ops ! q) \<noteq> {}" by blast
  from conflict_later_layer[OF s(1) assms(2,3) c] obtain a b where
    ab: "assigned_layer wm ops p = Inr a" "assigned_layer wm ops q = Inr b" "a < b" by blast
  from run_layers_inv[OF s(1)] assms(3) ab(2) have b: "b \<le> max_layer s"
    by (auto simp: run_inv_def)
  with ab(3) have a: "a \<le> max_layer s" by simp
  have "p \<in> placed wm ops a" "q \<in> placed wm ops b"
    using ab assms(2,3) by (simp_all add: placed_def)
  then have "ops ! p \<in> ops_in_layer s ! a" "ops ! q \<in> ops_in_layer s ! b"
    using run_layers_final_layers(2)[OF s(1) a] run_layers_final_layers(2)[OF s(1) b] by auto
  moreover have "b < length (ops_in_layer s)"
    using run_layers_final_layers(1)[OF s(1)] b by simp
  ultimately show ?thesis using s(2) ab by blast
qed

theorem blocking_by_span_witness:
  "\<exists>layers a b. drawable_layers [Operator 0 [0, 3], Operator 1 [1 :: nat]]
       (Some (fmap_of_list [(0 :: nat, 0 :: nat), (1, 1), (2, 2), (3, 3)])) = Inr layers \<and>
     assigned_layer (fmap_of_list [(0 :: nat, 0 :: nat), (1, 1), (2, 2), (3, 3)])
       [Operator 0 [0, 3], Operator 1 [1 :: nat]] 0 = Inr a \<and>
     assigned_layer (fmap_of_list [(0 :: nat, 0 :: nat), (1, 1), (2, 2), (3, 3)])
       [Operator 0 [0, 3], Operator 1 [1 :: nat]] 1 = Inr b \<and>
     a < b \<and> b < length layers \<and>
     [Operator 0 [0, 3], Operator 1 [1 :: nat]] ! 0 \<in> layers ! a \<and>
     [Operator 0 [0, 3], Operator 1 [1 :: nat]] ! 1 \<in> layers ! b"
proof -
  let ?wm = "fmap_of_list [(0 :: nat, 0 :: nat), (1, 1), (2, 2), (3, 3)]"
  let ?ops = "[Operator 0 [0, 3], Operator 1 [1 :: nat]]"
  have c: "covers ?wm ?ops" by (simp add: covers_def fmlookup_of_list)
  have m: "mapped_indices ?wm (?ops ! 0) = {0, 3}" "mapped_indices ?wm (?ops ! 1) = {1}"
    by (auto simp: mapped_indices_def fmlookup_of_list)
  have h1: "(0 :: nat) < 1" "1 < length ?ops" "wires (?ops ! 0) \<noteq> []" by simp_all
  have h2: "0 = Min (mapped_indices ?wm (?ops ! 0))" "3 = Max (mapped_indices ?wm (?ops ! 0))"
    "(0 :: nat) < 3" "\<exists>k \<in> mapped_indices ?wm (?ops ! 1). 0 \<le> k \<and> k \<le> 3"
    unfolding m by simp_all
  from blocking_by_span[OF c h1 h2] show ?thesis .
qed

subsection \<open>Which earlier operations decide a layer\<close>

lemma layer_occ_conflict_iff:
  assumes "run_inv wm xs s"
  shows "layer_occ s l \<inter> S \<noteq> {} \<longleftrightarrow>
     (\<exists>k < length xs. assigned_layer wm xs k = Inr l \<and> occupied_set wm (xs ! k) \<inter> S \<noteq> {})"
proof -
  from assms have "layer_occ s l = (\<Union>k \<in> placed wm xs l. occupied_set wm (xs ! k))"
    by (simp add: run_inv_def)
  then show ?thesis by (auto simp: placed_def)
qed

lemma assigned_layer_bound:
  assumes "run_layers wm xs = Inr s" and "k < length xs"
  shows "\<exists>l \<le> max_layer s. assigned_layer wm xs k = Inr l"
  using run_layers_inv[OF assms(1)] assms(2) by (simp add: run_inv_def)

lemma assigned_layer_formula:
  fixes wm :: "'w wire_map"
  assumes run: "run_layers wm xs = Inr s" and q: "q < length xs"
  defines "C \<equiv> {l. \<exists>k < q. assigned_layer wm xs k = Inr l \<and>
                    occupied_set wm (xs ! k) \<inter> occupied_set wm (xs ! q) \<noteq> {}}"
  shows "finite C \<and> assigned_layer wm xs q = Inr (if C = {} then 0 else Suc (Max C))"
proof -
  from assigned_layer_search[OF run q] obtain sq b where
    sq: "run_layers wm (take q xs) = Inr sq" "run_inv wm (take q xs) sq"
        "assigned_layer wm xs q = Inr b" "b \<le> max_layer sq + 1"
        "\<forall>i. b \<le> i \<and> i \<le> max_layer sq \<longrightarrow> layer_occ sq i \<inter> occupied_set wm (xs ! q) = {}"
        "0 < b \<longrightarrow> layer_occ sq (b - 1) \<inter> occupied_set wm (xs ! q) \<noteq> {}"
    by blast
  have conf: "layer_occ sq l \<inter> occupied_set wm (xs ! q) \<noteq> {} \<longleftrightarrow> l \<in> C" for l
  proof -
    have "layer_occ sq l \<inter> occupied_set wm (xs ! q) \<noteq> {} \<longleftrightarrow>
      (\<exists>k < length (take q xs). assigned_layer wm (take q xs) k = Inr l \<and>
         occupied_set wm (take q xs ! k) \<inter> occupied_set wm (xs ! q) \<noteq> {})"
      by (rule layer_occ_conflict_iff[OF sq(2)])
    also have "\<dots> \<longleftrightarrow> (\<exists>k < q. assigned_layer wm xs k = Inr l \<and>
         occupied_set wm (xs ! k) \<inter> occupied_set wm (xs ! q) \<noteq> {})"
    proof (rule iff_exI)
      fix k
      show "(k < length (take q xs) \<and> assigned_layer wm (take q xs) k = Inr l \<and>
              occupied_set wm (take q xs ! k) \<inter> occupied_set wm (xs ! q) \<noteq> {}) \<longleftrightarrow>
            (k < q \<and> assigned_layer wm xs k = Inr l \<and>
              occupied_set wm (xs ! k) \<inter> occupied_set wm (xs ! q) \<noteq> {})"
        using q by (cases "k < q") (simp_all add: assigned_layer_take)
    qed
    finally show ?thesis by (simp add: C_def)
  qed
  have bound: "l \<le> max_layer sq" if "l \<in> C" for l
  proof -
    from that obtain k where k: "k < q" "assigned_layer wm xs k = Inr l" by (auto simp: C_def)
    with q have "k < length (take q xs)" "assigned_layer wm (take q xs) k = Inr l"
      by (simp_all add: assigned_layer_take)
    with assigned_layer_bound[OF sq(1), of k] show ?thesis by auto
  qed
  then have fin: "finite C" by (auto intro: finite_subset[of C "{..max_layer sq}"])
  have below: "l < b" if "l \<in> C" for l
  proof -
    from that conf bound sq(5) have "\<not> b \<le> l" by blast
    then show ?thesis by simp
  qed
  show ?thesis
  proof (cases "b = 0")
    case True
    with below have "C = {}" by auto
    with fin sq(3) True show ?thesis by simp
  next
    case False
    with sq(6) conf have mem: "b - 1 \<in> C" by simp
    have "Max C = b - 1"
    proof (rule Max_eqI[OF fin _ mem])
      fix l assume "l \<in> C"
      from below[OF this] show "l \<le> b - 1" by simp
    qed
    with mem fin sq(3) False show ?thesis by auto
  qed
qed

subsection \<open>Occupied sets and the indices of the wire map\<close>

lemma mapped_subset_ran: "mapped_indices wm op \<subseteq> fset (fmran wm)"
  by (auto simp: mapped_indices_iff intro: fmranI)

lemma occupied_meets_ran:
  assumes "\<forall>w \<in> set (wires op). fmlookup wm w \<noteq> None" and "fset (fmran wm) \<noteq> {}"
  shows "occupied_set wm op \<inter> fset (fmran wm) \<noteq> {}"
proof (cases "wires op = []")
  case True
  with assms(2) show ?thesis by (simp add: occupied_set_def)
next
  case False
  then obtain w where w: "w \<in> set (wires op)" by (cases "wires op") auto
  with assms(1) obtain i where "fmlookup wm w = Some i" by auto
  with w have "i \<in> mapped_indices wm op" by (auto simp: mapped_indices_iff)
  then have ne: "mapped_indices wm op \<noteq> {}" by blast
  then have "Min (mapped_indices wm op) \<in> mapped_indices wm op"
    by (simp add: finite_mapped_indices)
  with mapped_subset_occupied[OF False] mapped_subset_ran show ?thesis by blast
qed

lemma occupied_nonempty_ran:
  assumes "occupied_set wm op \<noteq> {}" and "\<forall>w \<in> set (wires op). fmlookup wm w \<noteq> None"
  shows "fset (fmran wm) \<noteq> {}"
proof (cases "wires op = []")
  case True
  with assms(1) show ?thesis by (simp add: occupied_set_def)
next
  case False
  then obtain w where w: "w \<in> set (wires op)" by (cases "wires op") auto
  with assms(2) obtain i where "fmlookup wm w = Some i" by auto
  with w have "i \<in> mapped_indices wm op" by (auto simp: mapped_indices_iff)
  then have "mapped_indices wm op \<noteq> {}" by blast
  with mapped_subset_ran show ?thesis by blast
qed

lemma drawable_layers_run:
  "drawable_layers ops wire_map = Inr layers \<Longrightarrow>
     \<exists>s. run_layers (resolve_wire_map ops wire_map) ops = Inr s \<and> layers = ops_in_layer s"
  by (auto simp: drawable_layers_def split: sum.splits)

lemma snoc_update_last:
  "n = length xs \<Longrightarrow> (xs @ [a])[n := insert x ((xs @ [a]) ! n)] = xs @ [insert x a]"
  by simp

lemma layers_step_append_only:
  fixes wm :: "'w wire_map"
  assumes "shape s" and "layers_step wm s op = Inr s'"
  shows "\<exists>r. find_op_layer wm s op = Inr r \<and>
           ops_in_layer s' =
             (if max_layer s < r then ops_in_layer s @ [{op}]
              else (ops_in_layer s)[r := insert op (ops_in_layer s ! r)])"
proof -
  from assms(2) obtain S where S: "op_occupied_wires wm op = Inr S"
    by (cases "op_occupied_wires wm op") (auto simp: layers_step_def)
  from layers_step_effect[OF assms(1) S] obtain r where
    r: "find_op_layer wm s op = Inr r" "r \<le> max_layer s + 1" by blast
  then have rf: "(recursive_find_layer (max_layer s) S (occupied_wires_per_layer s) :: 'w error + nat) = Inr r"
    by (simp add: find_op_layer_def S)
  have "ops_in_layer s' =
      (if max_layer s < r then ops_in_layer s @ [{op}]
       else (ops_in_layer s)[r := insert op (ops_in_layer s ! r)])"
  proof (cases "max_layer s < r")
    case True
    with r(2) assms(1) have rl: "r = length (ops_in_layer s)" by (simp add: shape_def)
    have "ops_in_layer s' = (ops_in_layer s @ [{}])[r := insert op ((ops_in_layer s @ [{}]) ! r)]"
      using assms True rl
      by (auto simp: layers_step_def S rf add_to_layer_def add_new_layer_def shape_def
          simp del: list_update_append split: if_splits)
    also have "\<dots> = ops_in_layer s @ [{op}]" by (rule snoc_update_last[OF rl])
    finally show ?thesis using True by simp
  next
    case False
    then show ?thesis
      using assms
      by (auto simp: layers_step_def S rf add_to_layer_def add_new_layer_def shape_def
          split: if_splits)
  qed
  with r(1) show ?thesis by blast
qed

text \<open>
  C7. In a returned layer sequence no empty layer lies between two non-empty ones (with at
  least one operation no layer at all is empty). Each iteration of the loop either adds the
  operation to an existing layer, leaving the number and the positions of the layers as
  they are, or, exactly when the resolved layer exceeds \<open>max_layer\<close>, appends one layer at
  the end that holds the operation.
\<close>

theorem layers_dense:
  fixes wire_map :: "'w wire_map option"
  assumes "drawable_layers ops wire_map = Inr layers"
  shows "\<not> (\<exists>i j k. i < j \<and> j < k \<and> k < length layers \<and>
               layers ! i \<noteq> {} \<and> layers ! j = {} \<and> layers ! k \<noteq> {}) \<and>
         (ops \<noteq> [] \<longrightarrow> (\<forall>L \<in> set layers. L \<noteq> {})) \<and>
         (\<forall>n < length ops. \<exists>s s' r.
            run_layers (resolve_wire_map ops wire_map) (take n ops) = Inr s \<and>
            run_layers (resolve_wire_map ops wire_map) (take (Suc n) ops) = Inr s' \<and>
            find_op_layer (resolve_wire_map ops wire_map) s (ops ! n) = Inr r \<and>
            ops_in_layer s' =
              (if max_layer s < r then ops_in_layer s @ [{ops ! n}]
               else (ops_in_layer s)[r := insert (ops ! n) (ops_in_layer s ! r)]))"
proof -
  let ?wm = "resolve_wire_map ops wire_map"
  from drawable_layers_run[OF assms] obtain sf where
    sf: "run_layers ?wm ops = Inr sf" "layers = ops_in_layer sf" by blast
  from run_layers_inv[OF sf(1)] have inv: "run_inv ?wm ops sf" .
  have len: "length layers = max_layer sf + 1"
    using run_layers_final_layers(1)[OF sf(1)] sf(2) by simp
  have nonempty: "layers ! l \<noteq> {}" if "l < length layers" "0 < l \<or> ops \<noteq> []" for l
  proof -
    from that len have l: "l \<le> max_layer sf" by simp
    from that(2) l inv have "placed ?wm ops l \<noteq> {}"
      by (cases "l = 0") (auto simp: run_inv_def)
    with run_layers_final_layers(2)[OF sf(1) l] sf(2) show ?thesis by simp
  qed
  have a: "\<not> (\<exists>i j k. i < j \<and> j < k \<and> k < length layers \<and>
               layers ! i \<noteq> {} \<and> layers ! j = {} \<and> layers ! k \<noteq> {})"
  proof
    assume "\<exists>i j k. i < j \<and> j < k \<and> k < length layers \<and>
               layers ! i \<noteq> {} \<and> layers ! j = {} \<and> layers ! k \<noteq> {}"
    then obtain i j k where "i < j" "j < k" "k < length layers" "layers ! j = {}" by blast
    with nonempty[of j] show False by simp
  qed
  have b: "ops \<noteq> [] \<longrightarrow> (\<forall>L \<in> set layers. L \<noteq> {})"
    using nonempty by (auto simp: in_set_conv_nth)
  have c: "\<exists>s s' r. run_layers ?wm (take n ops) = Inr s \<and>
            run_layers ?wm (take (Suc n) ops) = Inr s' \<and>
            find_op_layer ?wm s (ops ! n) = Inr r \<and>
            ops_in_layer s' =
              (if max_layer s < r then ops_in_layer s @ [{ops ! n}]
               else (ops_in_layer s)[r := insert (ops ! n) (ops_in_layer s ! r)])"
    if n: "n < length ops" for n
  proof -
    from run_layers_take[OF sf(1), of "Suc n"] obtain s' where
      s': "run_layers ?wm (take (Suc n) ops) = Inr s'" by blast
    have tk: "take (Suc n) ops = take n ops @ [ops ! n]"
      using n by (rule take_Suc_conv_app_nth)
    from s' obtain s where s: "run_layers ?wm (take n ops) = Inr s"
      and st: "layers_step ?wm s (ops ! n) = Inr s'"
      unfolding tk by (auto simp: run_layers_snoc split: sum.splits)
    from run_layers_inv[OF s] have "shape s" by (simp add: run_inv_def)
    from layers_step_append_only[OF this st] s s' show ?thesis by blast
  qed
  from a b c show ?thesis by blast
qed

theorem layers_dense_witness:
  "drawable_layers [Operator 0 [0], Operator 1 [0 :: nat]] (Some (fmap_of_list [(0, 0), (1, 1)]))
     = Inr [{Operator 0 [0]}, {Operator 1 [0]}] \<and>
   [Operator 0 [0], Operator 1 [0 :: nat]] \<noteq> [] \<and>
   {Operator 1 [0 :: nat]} \<noteq> {}"
proof -
  let ?ops = "[Operator 0 [0], Operator 1 [0 :: nat]]"
  let ?wm = "fmap_of_list [(0 :: nat, 0 :: nat), (1, 1)]"
  have e: "drawable_layers ?ops (Some ?wm) = Inr [{Operator 0 [0]}, {Operator 1 [0]}]"
    by code_simp
  from layers_dense[OF e] have "?ops \<noteq> [] \<longrightarrow>
      (\<forall>L \<in> set [{Operator 0 [0]}, {Operator 1 [0 :: nat]}]. L \<noteq> {})"
    by blast
  then have "{Operator 1 [0 :: nat]} \<noteq> {}" by simp
  with e show ?thesis by simp
qed

lemma covers_nth: "covers wm ops \<Longrightarrow> k < length ops \<Longrightarrow> \<forall>w \<in> set (wires (ops ! k)). fmlookup wm w \<noteq> None"
  by (auto simp: covers_def)

text \<open>
  C5. An operation without wires occupies every index of the wire map. When the loop reaches
  it in a state whose last layer has an occupied wire, it is assigned the fresh layer
  \<open>max_layer + 1\<close>; in the returned sequence that layer holds this operation alone, and no
  other position of the input, earlier or later, is assigned that layer.
\<close>

theorem broadcast_isolation:
  fixes wm :: "'w wire_map"
  assumes cov: "covers wm ops" and q: "q < length ops" and z: "wires (ops ! q) = []"
    and sq: "run_layers wm (take q ops) = Inr s"
    and busy: "occupied_wires_per_layer s ! max_layer s \<noteq> {}"
  shows "op_occupied_wires wm (ops ! q) = Inr (fset (fmran wm)) \<and>
         assigned_layer wm ops q = Inr (max_layer s + 1) \<and>
         (\<exists>layers. drawable_layers ops (Some wm) = Inr layers \<and>
            max_layer s + 1 < length layers \<and> layers ! (max_layer s + 1) = {ops ! q}) \<and>
         (\<forall>r < length ops. r \<noteq> q \<longrightarrow> assigned_layer wm ops r \<noteq> Inr (max_layer s + 1))"
proof -
  let ?Z = "fset (fmran wm)"
  from drawable_layers_total[OF cov] obtain sf where
    sf: "run_layers wm ops = Inr sf" "drawable_layers ops (Some wm) = Inr (ops_in_layer sf)"
    by blast
  have oz: "occupied_set wm (ops ! q) = ?Z" using z by (simp add: occupied_set_def)
  have o1: "op_occupied_wires wm (ops ! q) = Inr ?Z" using z by (simp add: op_occupied_wires_def)
  from run_layers_inv[OF sq] have inv: "run_inv wm (take q ops) s" .
  then have "max_layer s < length (occupied_wires_per_layer s)" by (simp add: run_inv_def shape_def)
  with busy have lo: "layer_occ s (max_layer s) \<noteq> {}" by (simp add: layer_occ_def)
  with inv obtain k where k: "k \<in> placed wm (take q ops) (max_layer s)"
    "occupied_set wm (take q ops ! k) \<noteq> {}"
    by (auto simp: run_inv_def)
  then have kq: "k < q" by (simp add: placed_def)
  with k(2) have kne: "occupied_set wm (ops ! k) \<noteq> {}" by simp
  from kq q have "k < length ops" by simp
  from occupied_nonempty_ran[OF kne covers_nth[OF cov this]] have ran: "?Z \<noteq> {}" .
  have meets: "occupied_set wm (ops ! r) \<inter> ?Z \<noteq> {}" if "r < length ops" for r
    using occupied_meets_ran[OF covers_nth[OF cov that] ran] .
  have "occupied_set wm (take q ops ! k) \<subseteq> layer_occ s (max_layer s)"
    using inv k(1) by (auto simp: run_inv_def)
  with kq meets[OF \<open>k < length ops\<close>] have top: "layer_occ s (max_layer s) \<inter> ?Z \<noteq> {}"
    by auto
  from assigned_layer_search[OF sf(1) q] sq obtain b where
    b: "assigned_layer wm ops q = Inr b" "b \<le> max_layer s + 1"
       "\<forall>i. b \<le> i \<and> i \<le> max_layer s \<longrightarrow> layer_occ s i \<inter> occupied_set wm (ops ! q) = {}"
    by auto
  from b(3) top oz have "\<not> b \<le> max_layer s" by auto
  with b(2) have beq: "b = max_layer s + 1" by simp
  with b(1) have aq: "assigned_layer wm ops q = Inr (max_layer s + 1)" by simp
  have others: "assigned_layer wm ops r \<noteq> Inr (max_layer s + 1)" if r: "r < length ops" "r \<noteq> q" for r
  proof (cases "r < q")
    case True
    then have "r < length (take q ops)" using q by simp
    from assigned_layer_bound[OF sq this] obtain l where
      "l \<le> max_layer s" "assigned_layer wm (take q ops) r = Inr l" by blast
    with True q show ?thesis by (simp add: assigned_layer_take)
  next
    case False
    with r have qr: "q < r" by simp
    from meets[OF r(1)] oz have "occupied_set wm (ops ! q) \<inter> occupied_set wm (ops ! r) \<noteq> {}"
      by auto
    from conflict_later_layer[OF sf(1) qr r(1) this] aq show ?thesis by auto
  qed
  from assigned_layer_bound[OF sf(1) q] aq have le: "max_layer s + 1 \<le> max_layer sf" by auto
  have "placed wm ops (max_layer s + 1) = {q}"
    using aq q others by (auto simp: placed_def)
  with run_layers_final_layers(2)[OF sf(1) le]
  have "ops_in_layer sf ! (max_layer s + 1) = {ops ! q}" by simp
  moreover have "max_layer s + 1 < length (ops_in_layer sf)"
    using run_layers_final_layers(1)[OF sf(1)] le by simp
  ultimately show ?thesis using o1 aq sf(2) others by blast
qed

theorem broadcast_isolation_witness:
  "assigned_layer (fmap_of_list [(0 :: nat, 0), (1, 1)])
     [Operator 0 [0], Operator 1 [], Operator 2 [1]] 1 = Inr 1 \<and>
   drawable_layers [Operator 0 [0 :: nat], Operator 1 [], Operator 2 [1]]
     (Some (fmap_of_list [(0, 0), (1, 1)]))
     = Inr [{Operator 0 [0]}, {Operator 1 []}, {Operator 2 [1]}]"
proof -
  let ?wm = "fmap_of_list [(0 :: nat, 0 :: nat), (1, 1)]"
  let ?ops = "[Operator 0 [0 :: nat], Operator 1 [], Operator 2 [1]]"
  let ?s = "\<lparr>max_layer = 0, occupied_wires_per_layer = [{0 :: nat}],
             ops_in_layer = [{Operator 0 [0 :: nat]}]\<rparr>"
  have c: "covers ?wm ?ops" by (simp add: covers_def fmlookup_of_list)
  have h: "1 < length ?ops" "wires (?ops ! 1) = []" by simp_all
  have r: "run_layers ?wm (take 1 ?ops) = Inr ?s" by code_simp
  have b: "occupied_wires_per_layer ?s ! max_layer ?s \<noteq> {}" by simp
  have e: "drawable_layers ?ops (Some ?wm) = Inr [{Operator 0 [0]}, {Operator 1 []}, {Operator 2 [1]}]"
    by code_simp
  from broadcast_isolation[OF c h r b] have "assigned_layer ?wm ?ops 1 = Inr (max_layer ?s + 1)"
    by blast
  then have "assigned_layer ?wm ?ops 1 = Inr 1" by simp
  with e show ?thesis by simp
qed

text \<open>
  C4, as stated, fails: in \<open>[X, A, B]\<close> with \<open>X\<close> and \<open>A\<close> on wire 0 and \<open>B\<close> on wire 1, the
  operations \<open>A\<close> and \<open>B\<close> have disjoint occupied sets and nothing lies between them, yet \<open>A\<close>
  is pushed to layer 1 by \<open>X\<close> while \<open>B\<close> goes to layer 0.
\<close>

theorem leftmost_packing_counterexample:
  "occupied_set (fmap_of_list [(0 :: nat, 0), (1, 1)]) (Operator 1 [0]) \<inter>
   occupied_set (fmap_of_list [(0 :: nat, 0), (1, 1)]) (Operator 2 [1]) = {} \<and>
   assigned_layer (fmap_of_list [(0 :: nat, 0), (1, 1)])
     [Operator 0 [0], Operator 1 [0], Operator 2 [1]] 1 = Inr 1 \<and>
   assigned_layer (fmap_of_list [(0 :: nat, 0), (1, 1)])
     [Operator 0 [0], Operator 1 [0], Operator 2 [1]] 2 = Inr 0 \<and>
   drawable_layers [Operator 0 [0 :: nat], Operator 1 [0], Operator 2 [1]]
     (Some (fmap_of_list [(0, 0), (1, 1)]))
     = Inr [{Operator 0 [0], Operator 2 [1]}, {Operator 1 [0]}]"
  by code_simp

text \<open>
  C4, amended. The layer of an operation is one more than the highest layer assigned to an
  earlier operation that conflicts with it, and 0 when no earlier operation conflicts. So
  two operations at positions \<open>p < q\<close> with disjoint occupied sets are assigned the same
  layer when no operation between them conflicts with the later one and the operations
  before \<open>p\<close> conflict with the one exactly when they conflict with the other; that layer is
  the earliest possible: it is 0, or the layer before it holds an earlier operation that
  conflicts with both.
\<close>

theorem leftmost_packing:
  fixes wm :: "'w wire_map"
  assumes cov: "covers wm ops" and pq: "p < q" "q < length ops"
    and disj: "occupied_set wm (ops ! p) \<inter> occupied_set wm (ops ! q) = {}"
    and between: "\<forall>k. p < k \<and> k < q \<longrightarrow>
        occupied_set wm (ops ! k) \<inter> occupied_set wm (ops ! q) = {}"
    and before: "\<forall>k < p. (occupied_set wm (ops ! k) \<inter> occupied_set wm (ops ! p) \<noteq> {}) =
        (occupied_set wm (ops ! k) \<inter> occupied_set wm (ops ! q) \<noteq> {})"
  shows "\<exists>layers a. drawable_layers ops (Some wm) = Inr layers \<and>
           assigned_layer wm ops p = Inr a \<and> assigned_layer wm ops q = Inr a \<and>
           a < length layers \<and> ops ! p \<in> layers ! a \<and> ops ! q \<in> layers ! a \<and>
           (a = 0 \<or> (\<exists>k < p. assigned_layer wm ops k = Inr (a - 1) \<and>
               occupied_set wm (ops ! k) \<inter> occupied_set wm (ops ! p) \<noteq> {} \<and>
               occupied_set wm (ops ! k) \<inter> occupied_set wm (ops ! q) \<noteq> {}))"
proof -
  from drawable_layers_total[OF cov] obtain s where
    s: "run_layers wm ops = Inr s" "drawable_layers ops (Some wm) = Inr (ops_in_layer s)"
    by blast
  define Cp where "Cp = {l. \<exists>k < p. assigned_layer wm ops k = Inr l \<and>
                    occupied_set wm (ops ! k) \<inter> occupied_set wm (ops ! p) \<noteq> {}}"
  define Cq where "Cq = {l. \<exists>k < q. assigned_layer wm ops k = Inr l \<and>
                    occupied_set wm (ops ! k) \<inter> occupied_set wm (ops ! q) \<noteq> {}}"
  from pq have p: "p < length ops" by simp
  from assigned_layer_formula[OF s(1) p]
  have fp: "finite Cp" "assigned_layer wm ops p = Inr (if Cp = {} then 0 else Suc (Max Cp))"
    by (simp_all add: Cp_def)
  from assigned_layer_formula[OF s(1) pq(2)]
  have fq: "assigned_layer wm ops q = Inr (if Cq = {} then 0 else Suc (Max Cq))"
    by (simp_all add: Cq_def)
  have "Cq = Cp"
  proof (rule set_eqI)
    fix l
    show "l \<in> Cq \<longleftrightarrow> l \<in> Cp"
    proof
      assume "l \<in> Cq"
      then obtain k where k: "k < q" "assigned_layer wm ops k = Inr l"
        "occupied_set wm (ops ! k) \<inter> occupied_set wm (ops ! q) \<noteq> {}"
        by (auto simp: Cq_def)
      from k(3) disj have "k \<noteq> p" by auto
      moreover from k(3) between k(1) have "\<not> p < k" by auto
      ultimately have kp: "k < p" by simp
      with before k(3) have "occupied_set wm (ops ! k) \<inter> occupied_set wm (ops ! p) \<noteq> {}"
        by blast
      with kp k(2) show "l \<in> Cp" by (auto simp: Cp_def)
    next
      assume "l \<in> Cp"
      then obtain k where k: "k < p" "assigned_layer wm ops k = Inr l"
        "occupied_set wm (ops ! k) \<inter> occupied_set wm (ops ! p) \<noteq> {}"
        by (auto simp: Cp_def)
      with before have "occupied_set wm (ops ! k) \<inter> occupied_set wm (ops ! q) \<noteq> {}"
        by blast
      moreover from k(1) pq(1) have "k < q" by simp
      ultimately show "l \<in> Cq" using k(2) by (auto simp: Cq_def)
    qed
  qed
  define a where "a = (if Cp = {} then 0 else Suc (Max Cp))"
  have ap: "assigned_layer wm ops p = Inr a" using fp(2) by (simp add: a_def)
  have aq: "assigned_layer wm ops q = Inr a" using fq \<open>Cq = Cp\<close> by (simp add: a_def)
  from assigned_layer_bound[OF s(1) p] ap have le: "a \<le> max_layer s" by auto
  have "p \<in> placed wm ops a" "q \<in> placed wm ops a"
    using ap aq p pq(2) by (simp_all add: placed_def)
  with run_layers_final_layers(2)[OF s(1) le]
  have mem: "ops ! p \<in> ops_in_layer s ! a" "ops ! q \<in> ops_in_layer s ! a" by auto
  have len: "a < length (ops_in_layer s)"
    using run_layers_final_layers(1)[OF s(1)] le by simp
  have early: "a = 0 \<or> (\<exists>k < p. assigned_layer wm ops k = Inr (a - 1) \<and>
               occupied_set wm (ops ! k) \<inter> occupied_set wm (ops ! p) \<noteq> {} \<and>
               occupied_set wm (ops ! k) \<inter> occupied_set wm (ops ! q) \<noteq> {})"
  proof (cases "Cp = {}")
    case True
    then show ?thesis by (simp add: a_def)
  next
    case False
    with fp(1) have "Max Cp \<in> Cp" by simp
    moreover from False have "a - 1 = Max Cp" by (simp add: a_def)
    ultimately obtain k where k: "k < p" "assigned_layer wm ops k = Inr (a - 1)"
      "occupied_set wm (ops ! k) \<inter> occupied_set wm (ops ! p) \<noteq> {}"
      by (auto simp: Cp_def)
    with before have "occupied_set wm (ops ! k) \<inter> occupied_set wm (ops ! q) \<noteq> {}"
      by blast
    with k show ?thesis by blast
  qed
  from s(2) ap aq len mem early show ?thesis by blast
qed

theorem leftmost_packing_witness:
  "\<exists>layers a. drawable_layers [Operator 0 [0, 1], Operator 1 [0], Operator 2 [2], Operator 3 [1 :: nat]]
       (Some (fmap_of_list [(0 :: nat, 0 :: nat), (1, 1), (2, 2)])) = Inr layers \<and>
     assigned_layer (fmap_of_list [(0 :: nat, 0 :: nat), (1, 1), (2, 2)])
       [Operator 0 [0, 1], Operator 1 [0], Operator 2 [2], Operator 3 [1 :: nat]] 1 = Inr a \<and>
     assigned_layer (fmap_of_list [(0 :: nat, 0 :: nat), (1, 1), (2, 2)])
       [Operator 0 [0, 1], Operator 1 [0], Operator 2 [2], Operator 3 [1 :: nat]] 3 = Inr a \<and>
     Operator 1 [0] \<in> layers ! a \<and> Operator 3 [1] \<in> layers ! a"
proof -
  let ?wm = "fmap_of_list [(0 :: nat, 0 :: nat), (1, 1), (2, 2)]"
  let ?ops = "[Operator 0 [0, 1], Operator 1 [0], Operator 2 [2], Operator 3 [1 :: nat]]"
  have c: "covers ?wm ?ops" by (simp add: covers_def fmlookup_of_list)
  have h: "(1 :: nat) < 3" "3 < length ?ops" by simp_all
  have o: "occupied_set ?wm (?ops ! 0) = {0, 1}" "occupied_set ?wm (?ops ! 1) = {0}"
    "occupied_set ?wm (?ops ! 2) = {2}" "occupied_set ?wm (?ops ! 3) = {1}"
    by code_simp+
  have d: "occupied_set ?wm (?ops ! 1) \<inter> occupied_set ?wm (?ops ! 3) = {}"
    unfolding o by simp
  have bt: "\<forall>k. 1 < k \<and> k < 3 \<longrightarrow> occupied_set ?wm (?ops ! k) \<inter> occupied_set ?wm (?ops ! 3) = {}"
  proof (intro allI impI)
    fix k :: nat assume "1 < k \<and> k < 3"
    then have "k = 2" by simp
    then show "occupied_set ?wm (?ops ! k) \<inter> occupied_set ?wm (?ops ! 3) = {}"
      using o by simp
  qed
  have bf: "\<forall>k < 1. (occupied_set ?wm (?ops ! k) \<inter> occupied_set ?wm (?ops ! 1) \<noteq> {}) =
        (occupied_set ?wm (?ops ! k) \<inter> occupied_set ?wm (?ops ! 3) \<noteq> {})"
  proof (intro allI impI)
    fix k :: nat assume "k < 1"
    then have "k = 0" by simp
    then show "(occupied_set ?wm (?ops ! k) \<inter> occupied_set ?wm (?ops ! 1) \<noteq> {}) =
        (occupied_set ?wm (?ops ! k) \<inter> occupied_set ?wm (?ops ! 3) \<noteq> {})"
      using o by simp
  qed
  from leftmost_packing[OF c h d bt bf] show ?thesis by auto
qed

subsection \<open>Writing grid cells\<close>

lemma grid_dims_nth: "grid_dims g n m \<Longrightarrow> r < n \<Longrightarrow> length (g ! r) = m"
  by (simp add: grid_dims_def)

lemma grid_dims_replicate: "grid_dims (replicate n (replicate m None)) n m"
  by (simp add: grid_dims_def)

lemma grid_set_ok:
  assumes "grid_dims g n m" and "wire < n" and "layer < m"
  shows "\<exists>g'. grid_set layer op g wire = Inr g' \<and> grid_dims g' n m \<and>
           (\<forall>r < n. \<forall>c < m. g' ! r ! c =
              (if (r, c) \<in> {(wire, layer)} then Some op else g ! r ! c))"
proof -
  let ?g' = "g[wire := (g ! wire)[layer := Some op]]"
  from assms have l: "length g = n" "length (g ! wire) = m" by (simp_all add: grid_dims_def)
  with assms have "grid_set layer op g wire = Inr ?g'" by (simp add: grid_set_def)
  moreover have "grid_dims ?g' n m"
    using assms l by (auto simp: grid_dims_def set_conv_nth nth_list_update)
  moreover have "\<forall>r < n. \<forall>c < m. ?g' ! r ! c =
      (if (r, c) \<in> {(wire, layer)} then Some op else g ! r ! c)"
    using l assms by (auto simp: nth_list_update)
  ultimately show ?thesis by blast
qed

lemma grid_set_Inl: "grid_set layer op g wire = Inl e \<Longrightarrow> e = IndexError"
  by (auto simp: grid_set_def split: if_splits)

lemma for_each_writes:
  assumes step: "\<And>x g. x \<in> set xs \<Longrightarrow> grid_dims g n m \<Longrightarrow>
      \<exists>g'. body g x = Inr g' \<and> grid_dims g' n m \<and>
        (\<forall>r < n. \<forall>c < m. g' ! r ! c = (if (r, c) \<in> W x then Some (v x) else g ! r ! c))"
    and dims: "grid_dims g n m"
  shows "\<exists>g'. for_each body xs g = Inr g' \<and> grid_dims g' n m \<and>
      (\<forall>r < n. \<forall>c < m.
         ((\<exists>x \<in> set xs. (r, c) \<in> W x) \<longrightarrow>
            (\<exists>x \<in> set xs. (r, c) \<in> W x \<and> g' ! r ! c = Some (v x))) \<and>
         ((\<forall>x \<in> set xs. (r, c) \<notin> W x) \<longrightarrow> g' ! r ! c = g ! r ! c))"
  using assms
proof (induction xs arbitrary: g)
  case Nil
  then show ?case by simp
next
  case (Cons x xs)
  from Cons.prems(1)[of x g] Cons.prems(2) obtain g1 where
    g1: "body g x = Inr g1" "grid_dims g1 n m"
        "\<forall>r < n. \<forall>c < m. g1 ! r ! c = (if (r, c) \<in> W x then Some (v x) else g ! r ! c)"
    by auto
  have "\<And>y h. y \<in> set xs \<Longrightarrow> grid_dims h n m \<Longrightarrow>
      \<exists>h'. body h y = Inr h' \<and> grid_dims h' n m \<and>
        (\<forall>r < n. \<forall>c < m. h' ! r ! c = (if (r, c) \<in> W y then Some (v y) else h ! r ! c))"
    using Cons.prems(1) by simp
  from Cons.IH[OF this g1(2)] obtain g2 where
    g2: "for_each body xs g1 = Inr g2" "grid_dims g2 n m"
    and hit: "\<And>r c. r < n \<Longrightarrow> c < m \<Longrightarrow> \<exists>y \<in> set xs. (r, c) \<in> W y \<Longrightarrow>
           \<exists>y \<in> set xs. (r, c) \<in> W y \<and> g2 ! r ! c = Some (v y)"
    and miss: "\<And>r c. r < n \<Longrightarrow> c < m \<Longrightarrow> \<forall>y \<in> set xs. (r, c) \<notin> W y \<Longrightarrow>
           g2 ! r ! c = g1 ! r ! c"
    by blast
  have run: "for_each body (x # xs) g = Inr g2" by (simp add: g1(1) g2(1))
  have "((\<exists>y \<in> set (x # xs). (r, c) \<in> W y) \<longrightarrow>
            (\<exists>y \<in> set (x # xs). (r, c) \<in> W y \<and> g2 ! r ! c = Some (v y))) \<and>
         ((\<forall>y \<in> set (x # xs). (r, c) \<notin> W y) \<longrightarrow> g2 ! r ! c = g ! r ! c)"
    if rc: "r < n" "c < m" for r c
  proof (cases "\<exists>y \<in> set xs. (r, c) \<in> W y")
    case True
    from hit[OF rc True] obtain y where "y \<in> set xs" "(r, c) \<in> W y" "g2 ! r ! c = Some (v y)"
      by blast
    then show ?thesis by auto
  next
    case False
    then have "g2 ! r ! c = g1 ! r ! c" using miss[OF rc] by blast
    moreover have "g1 ! r ! c = (if (r, c) \<in> W x then Some (v x) else g ! r ! c)"
      using g1(3) rc by blast
    ultimately show ?thesis using False by auto
  qed
  with run g2(2) show ?case by blast
qed

lemma grid_set_label_ok:
  assumes "grid_dims g n m" and "fmlookup wm w = Some i" and "i < n" and "layer < m"
  shows "\<exists>g'. grid_set_label wm layer op g w = Inr g' \<and> grid_dims g' n m \<and>
           (\<forall>r < n. \<forall>c < m. g' ! r ! c =
              (if (r, c) \<in> (case fmlookup wm w of None \<Rightarrow> {} | Some j \<Rightarrow> {(j, layer)})
               then Some op else g ! r ! c))"
  using grid_set_ok[OF assms(1,3,4), of op] assms(2) by (simp add: grid_set_label_def)

lemma grid_fill_op_ok:
  fixes wm :: "'w wire_map"
  assumes dims: "grid_dims g n m" and layer: "layer < m"
    and covered: "\<forall>w \<in> set (wires op). fmlookup wm w \<noteq> None"
    and range: "mapped_indices wm op \<subseteq> {0..<n}"
  shows "\<exists>g'. grid_fill_op wm n layer g op = Inr g' \<and> grid_dims g' n m \<and>
           (\<forall>r < n. \<forall>c < m. g' ! r ! c =
              (if r \<in> op_rows wm n op \<and> c = layer then Some op else g ! r ! c))"
proof (cases "wires op = []")
  case True
  have st0: "\<exists>h'. grid_set layer op h x = Inr h' \<and> grid_dims h' n m \<and>
        (\<forall>r < n. \<forall>c < m. h' ! r ! c =
           (if (r, c) \<in> {(x, layer)} then Some op else h ! r ! c))"
    if x: "x \<in> set [0..<n]" and h: "grid_dims h n m" for x h
  proof -
    from x have "x < n" by simp
    from grid_set_ok[OF h this layer] show ?thesis .
  qed
  from for_each_writes[of "[0..<n]" n m "grid_set layer op" "\<lambda>x. {(x, layer)}" "\<lambda>_. op", OF st0 dims]
  obtain g' where
    g': "(for_each (grid_set layer op) [0..<n] g :: 'w error + 'w grid) = Inr g'" "grid_dims g' n m"
    and hit: "\<And>r c. r < n \<Longrightarrow> c < m \<Longrightarrow> \<exists>x \<in> set [0..<n]. (r, c) \<in> {(x, layer)} \<Longrightarrow>
        \<exists>x \<in> set [0..<n]. (r, c) \<in> {(x, layer)} \<and> g' ! r ! c = Some op"
    and miss: "\<And>r c. r < n \<Longrightarrow> c < m \<Longrightarrow> \<forall>x \<in> set [0..<n]. (r, c) \<notin> {(x, layer)} \<Longrightarrow>
        g' ! r ! c = g ! r ! c"
    by blast
  have run: "grid_fill_op wm n layer g op = Inr g'"
    using True g'(1) by (simp add: grid_fill_op_def)
  have "g' ! r ! c = (if r \<in> op_rows wm n op \<and> c = layer then Some op else g ! r ! c)"
    if rc: "r < n" "c < m" for r c
  proof (cases "c = layer")
    case True
    with rc have "\<exists>x \<in> set [0..<n]. (r, c) \<in> {(x, layer)}" by simp
    from hit[OF rc this] have "g' ! r ! c = Some op" by blast
    with True \<open>wires op = []\<close> rc show ?thesis by (simp add: op_rows_def)
  next
    case False
    then have "\<forall>x \<in> set [0..<n]. (r, c) \<notin> {(x, layer)}" by simp
    from miss[OF rc this] False show ?thesis by simp
  qed
  with run g'(2) show ?thesis by blast
next
  case False
  let ?W = "\<lambda>w. case fmlookup wm w of None \<Rightarrow> {} | Some j \<Rightarrow> {(j, layer)}"
  have st: "\<exists>h'. grid_set_label wm layer op h w = Inr h' \<and> grid_dims h' n m \<and>
        (\<forall>r < n. \<forall>c < m. h' ! r ! c =
           (if (r, c) \<in> ?W w then Some op else h ! r ! c))"
    if w: "w \<in> set (wires op)" and h: "grid_dims h n m" for w h
  proof -
    from covered w obtain i where i: "fmlookup wm w = Some i" by auto
    with w have "i \<in> mapped_indices wm op" by (auto simp: mapped_indices_iff)
    with range have "i < n" by auto
    from grid_set_label_ok[OF h i this layer] show ?thesis .
  qed
  from for_each_writes[of "wires op" n m "grid_set_label wm layer op" ?W "\<lambda>_. op", OF st dims]
  obtain g' where
    g': "for_each (grid_set_label wm layer op) (wires op) g = Inr g'" "grid_dims g' n m"
    and hit: "\<And>r c. r < n \<Longrightarrow> c < m \<Longrightarrow> \<exists>w \<in> set (wires op). (r, c) \<in> ?W w \<Longrightarrow>
        \<exists>w \<in> set (wires op). (r, c) \<in> ?W w \<and> g' ! r ! c = Some op"
    and miss: "\<And>r c. r < n \<Longrightarrow> c < m \<Longrightarrow> \<forall>w \<in> set (wires op). (r, c) \<notin> ?W w \<Longrightarrow>
        g' ! r ! c = g ! r ! c"
    by blast
  have run: "grid_fill_op wm n layer g op = Inr g'"
    using False g'(1) by (simp add: grid_fill_op_def)
  have Wiff: "(\<exists>w \<in> set (wires op). (r, c) \<in> ?W w) \<longleftrightarrow> r \<in> mapped_indices wm op \<and> c = layer"
    for r c
    by (auto simp: mapped_indices_iff split: option.splits)
  have "g' ! r ! c = (if r \<in> op_rows wm n op \<and> c = layer then Some op else g ! r ! c)"
    if rc: "r < n" "c < m" for r c
  proof (cases "r \<in> mapped_indices wm op \<and> c = layer")
    case True
    then have "\<exists>w \<in> set (wires op). (r, c) \<in> ?W w" using Wiff[of r c] by blast
    from hit[OF rc this] have "g' ! r ! c = Some op" by blast
    with True False show ?thesis by (simp add: op_rows_def)
  next
    case F: False
    then have "\<not> (\<exists>w \<in> set (wires op). (r, c) \<in> ?W w)" using Wiff[of r c] by blast
    then have "\<forall>w \<in> set (wires op). (r, c) \<notin> ?W w" by blast
    from miss[OF rc this] F False show ?thesis by (auto simp: op_rows_def)
  qed
  with run g'(2) show ?thesis by blast
qed

lemma for_each_map_Pair:
  "for_each (\<lambda>g p. case p of (l, x) \<Rightarrow> f l g x) (map (Pair l) xs) g = for_each (f l) xs g"
  by (induction xs arbitrary: g) (auto split: sum.splits)

lemma for_each_nested:
  "for_each (\<lambda>g p. case p of (l, L) \<Rightarrow> for_each (f l) (iter L) g) ps g =
   for_each (\<lambda>g p. case p of (l, x) \<Rightarrow> f l g x)
     (concat (map (\<lambda>p. case p of (l, L) \<Rightarrow> map (Pair l) (iter L)) ps)) g"
proof (induction ps arbitrary: g)
  case Nil
  show ?case by simp
next
  case (Cons p ps)
  obtain l L where p: "p = (l, L)" by (cases p)
  show ?case
    by (simp add: p for_each_append for_each_map_Pair Cons.IH split: sum.splits)
qed

lemma set_flat_layers:
  "set (concat (map (\<lambda>p. case p of (l, L) \<Rightarrow> map (Pair l) (set_iter L)) (zip [0..<length layers] layers)))
     = {(l, op). l < length layers \<and> op \<in> set (set_iter (layers ! l))}"
  by (auto simp: set_zip)

lemma grid_fill_layers_ok:
  fixes wm :: "'w wire_map"
  assumes dims: "grid_dims g n (length layers)"
    and ok: "\<forall>L \<in> set layers. \<forall>op \<in> set (set_iter L).
        (\<forall>w \<in> set (wires op). fmlookup wm w \<noteq> None) \<and> mapped_indices wm op \<subseteq> {0..<n}"
  shows "\<exists>g'. for_each (grid_fill_layer set_iter wm n) (zip [0..<length layers] layers) g = Inr g' \<and>
     grid_dims g' n (length layers) \<and>
     (\<forall>r < n. \<forall>c < length layers.
        ((\<exists>op \<in> set (set_iter (layers ! c)). r \<in> op_rows wm n op) \<longrightarrow>
           (\<exists>op \<in> set (set_iter (layers ! c)). r \<in> op_rows wm n op \<and> g' ! r ! c = Some op)) \<and>
        ((\<forall>op \<in> set (set_iter (layers ! c)). r \<notin> op_rows wm n op) \<longrightarrow> g' ! r ! c = g ! r ! c))"
proof -
  let ?m = "length layers"
  let ?F = "concat (map (\<lambda>p. case p of (l, L) \<Rightarrow> map (Pair l) (set_iter L)) (zip [0..<?m] layers))"
  let ?body = "\<lambda>g p. case p of (l, x) \<Rightarrow> grid_fill_op wm n l g x"
  let ?W = "\<lambda>p. case p of (l, op) \<Rightarrow> op_rows wm n op \<times> {l}"
  have F: "set ?F = {(l, op). l < ?m \<and> op \<in> set (set_iter (layers ! l))}"
    by (rule set_flat_layers)
  have memF: "(l, op) \<in> set ?F \<longleftrightarrow> l < ?m \<and> op \<in> set (set_iter (layers ! l))" for l op
    unfolding F by simp
  have flat: "for_each (grid_fill_layer set_iter wm n) (zip [0..<?m] layers) g = for_each ?body ?F g"
  proof -
    have "grid_fill_layer set_iter wm n =
        (\<lambda>g p. case p of (l, L) \<Rightarrow> for_each (grid_fill_op wm n l) (set_iter L) g)"
      by (simp add: fun_eq_iff grid_fill_layer_def)
    then show ?thesis by (simp only: for_each_nested)
  qed
  have st: "\<exists>h'. ?body h x = Inr h' \<and> grid_dims h' n ?m \<and>
        (\<forall>r < n. \<forall>c < ?m. h' ! r ! c = (if (r, c) \<in> ?W x then Some (snd x) else h ! r ! c))"
    if x: "x \<in> set ?F" and h: "grid_dims h n ?m" for x h
  proof -
    obtain l op where lo: "x = (l, op)" by (cases x)
    with x have "(l, op) \<in> set ?F" by simp
    then have l: "l < ?m" and op: "op \<in> set (set_iter (layers ! l))" by (simp_all only: memF)
    from l have "layers ! l \<in> set layers" by simp
    with ok op have c: "\<forall>w \<in> set (wires op). fmlookup wm w \<noteq> None"
      and rg: "mapped_indices wm op \<subseteq> {0..<n}" by blast+
    from grid_fill_op_ok[OF h l c rg] obtain h' where
      h': "grid_fill_op wm n l h op = Inr h'" "grid_dims h' n ?m"
          "\<forall>r < n. \<forall>c < ?m. h' ! r ! c =
             (if r \<in> op_rows wm n op \<and> c = l then Some op else h ! r ! c)"
      by blast
    have sx: "snd x = op" by (simp add: lo)
    have Wx: "\<And>r c. (r, c) \<in> ?W x \<longleftrightarrow> r \<in> op_rows wm n op \<and> c = l" by (simp add: lo)
    have "\<forall>r < n. \<forall>c < ?m. h' ! r ! c = (if (r, c) \<in> ?W x then Some (snd x) else h ! r ! c)"
      unfolding sx Wx using h'(3) .
    moreover have "?body h x = Inr h'" using h'(1) by (simp add: lo)
    ultimately show ?thesis using h'(2) by blast
  qed
  from for_each_writes[of ?F n ?m ?body ?W snd, OF st dims] obtain g' where
    g': "for_each ?body ?F g = Inr g'" "grid_dims g' n ?m"
    and hit: "\<And>r c. r < n \<Longrightarrow> c < ?m \<Longrightarrow> \<exists>x \<in> set ?F. (r, c) \<in> ?W x \<Longrightarrow>
        \<exists>x \<in> set ?F. (r, c) \<in> ?W x \<and> g' ! r ! c = Some (snd x)"
    and miss: "\<And>r c. r < n \<Longrightarrow> c < ?m \<Longrightarrow> \<forall>x \<in> set ?F. (r, c) \<notin> ?W x \<Longrightarrow>
        g' ! r ! c = g ! r ! c"
    by blast
  have "((\<exists>op \<in> set (set_iter (layers ! c)). r \<in> op_rows wm n op) \<longrightarrow>
           (\<exists>op \<in> set (set_iter (layers ! c)). r \<in> op_rows wm n op \<and> g' ! r ! c = Some op)) \<and>
        ((\<forall>op \<in> set (set_iter (layers ! c)). r \<notin> op_rows wm n op) \<longrightarrow> g' ! r ! c = g ! r ! c)"
    if rc: "r < n" "c < ?m" for r c
  proof (intro conjI impI)
    assume "\<exists>op \<in> set (set_iter (layers ! c)). r \<in> op_rows wm n op"
    then obtain op where "op \<in> set (set_iter (layers ! c))" "r \<in> op_rows wm n op" by blast
    with rc(2) have "(c, op) \<in> set ?F" "(r, c) \<in> ?W (c, op)" by (simp_all only: memF) simp
    then have "\<exists>x \<in> set ?F. (r, c) \<in> ?W x" by blast
    from hit[OF rc this] obtain x where x: "x \<in> set ?F" "(r, c) \<in> ?W x" "g' ! r ! c = Some (snd x)"
      by blast
    obtain l op' where lo: "x = (l, op')" by (cases x)
    with x(2) have "l = c" "r \<in> op_rows wm n op'" by simp_all
    moreover from x(1) lo \<open>l = c\<close> have "(c, op') \<in> set ?F" by simp
    then have "op' \<in> set (set_iter (layers ! c))" by (simp only: memF)
    moreover note calculation
    ultimately show "\<exists>op \<in> set (set_iter (layers ! c)). r \<in> op_rows wm n op \<and> g' ! r ! c = Some op"
      using x(3) lo by auto
  next
    assume none: "\<forall>op \<in> set (set_iter (layers ! c)). r \<notin> op_rows wm n op"
    have "\<forall>x \<in> set ?F. (r, c) \<notin> ?W x"
    proof
      fix x assume x: "x \<in> set ?F"
      obtain l op' where lo: "x = (l, op')" by (cases x)
      with x have "(l, op') \<in> set ?F" by simp
      then have "op' \<in> set (set_iter (layers ! l))" by (simp only: memF)
      with none lo show "(r, c) \<notin> ?W x" by auto
    qed
    from miss[OF rc this] show "g' ! r ! c = g ! r ! c" .
  qed
  with flat g' show ?thesis by auto
qed

subsection \<open>The grid of a layer sequence\<close>

lemma layers_members:
  assumes "run_layers wm ops = Inr s" and "L \<in> set (ops_in_layer s)" and "op \<in> L"
  shows "op \<in> set ops"
proof -
  from assms(2) obtain l where l: "l < length (ops_in_layer s)" "L = ops_in_layer s ! l"
    by (auto simp: in_set_conv_nth)
  with run_layers_final_layers[OF assms(1)] have "L = (\<lambda>k. ops ! k) ` placed wm ops l" by simp
  with assms(3) show ?thesis by (auto simp: placed_def)
qed

lemma dense_mapped_range:
  "dense_wire_map wm \<Longrightarrow> mapped_indices wm op \<subseteq> {0..<fcard (fmdom wm)}"
  using mapped_subset_ran[of wm op] by (simp add: dense_wire_map_def)

lemma drawable_grid_cells:
  fixes wm :: "'w wire_map"
  assumes ne: "ops \<noteq> []" and lay: "drawable_layers ops (Some wm) = Inr layers"
    and dense: "dense_wire_map wm" and it: "iterates set_iter layers"
  shows "\<exists>grid. drawable_grid set_iter ops (Some wm) = Inr grid \<and>
     grid_dims grid (fcard (fmdom wm)) (length layers) \<and>
     (\<forall>r < fcard (fmdom wm). \<forall>c < length layers.
        ((\<exists>op \<in> layers ! c. r \<in> op_rows wm (fcard (fmdom wm)) op) \<longrightarrow>
           (\<exists>op \<in> layers ! c. r \<in> op_rows wm (fcard (fmdom wm)) op \<and> grid ! r ! c = Some op)) \<and>
        ((\<forall>op \<in> layers ! c. r \<notin> op_rows wm (fcard (fmdom wm)) op) \<longrightarrow> grid ! r ! c = None))"
proof -
  let ?n = "fcard (fmdom wm)"
  let ?g0 = "replicate ?n (replicate (length layers) None) :: 'w grid"
  from drawable_layers_run[OF lay] obtain s where
    s: "run_layers wm ops = Inr s" "layers = ops_in_layer s"
    by (auto simp: resolve_wire_map_def)
  have cov: "covers wm ops" using s(1) by (rule run_layers_covers)
  have ok: "\<forall>L \<in> set layers. \<forall>op \<in> set (set_iter L).
        (\<forall>w \<in> set (wires op). fmlookup wm w \<noteq> None) \<and> mapped_indices wm op \<subseteq> {0..<?n}"
  proof (intro ballI)
    fix L op assume L: "L \<in> set layers" and "op \<in> set (set_iter L)"
    with it have "op \<in> L" by (auto simp: iterates_def)
    with layers_members[OF s(1)] L s(2) have "op \<in> set ops" by blast
    with cov dense_mapped_range[OF dense]
    show "(\<forall>w \<in> set (wires op). fmlookup wm w \<noteq> None) \<and> mapped_indices wm op \<subseteq> {0..<?n}"
      by (auto simp: covers_def)
  qed
  from grid_fill_layers_ok[OF grid_dims_replicate ok] obtain g' where
    g': "for_each (grid_fill_layer set_iter wm ?n) (zip [0..<length layers] layers) ?g0 = Inr g'"
        "grid_dims g' ?n (length layers)"
    and cells: "\<And>r c. r < ?n \<Longrightarrow> c < length layers \<Longrightarrow>
        ((\<exists>op \<in> set (set_iter (layers ! c)). r \<in> op_rows wm ?n op) \<longrightarrow>
           (\<exists>op \<in> set (set_iter (layers ! c)). r \<in> op_rows wm ?n op \<and> g' ! r ! c = Some op)) \<and>
        ((\<forall>op \<in> set (set_iter (layers ! c)). r \<notin> op_rows wm ?n op) \<longrightarrow> g' ! r ! c = ?g0 ! r ! c)"
    by blast
  have run: "drawable_grid set_iter ops (Some wm) = Inr g'"
    using ne lay g'(1) by (simp add: drawable_grid_def resolve_wire_map_def Let_def)
  have "((\<exists>op \<in> layers ! c. r \<in> op_rows wm ?n op) \<longrightarrow>
           (\<exists>op \<in> layers ! c. r \<in> op_rows wm ?n op \<and> g' ! r ! c = Some op)) \<and>
        ((\<forall>op \<in> layers ! c. r \<notin> op_rows wm ?n op) \<longrightarrow> g' ! r ! c = None)"
    if rc: "r < ?n" "c < length layers" for r c
  proof -
    from rc(2) it have "set (set_iter (layers ! c)) = layers ! c" by (simp add: iterates_def)
    moreover have "?g0 ! r ! c = None" using rc by simp
    ultimately show ?thesis using cells[OF rc] by simp
  qed
  with run g'(2) show ?thesis by blast
qed

lemma drawable_grid_no_ops:
  "drawable_grid set_iter [] (Some wm) =
     Inr (if fcard (fmdom wm) = 0 then [[]] else replicate (fcard (fmdom wm)) [])"
  by (simp add: drawable_grid_def resolve_wire_map_def Let_def)

lemma drawable_grid_Inl:
  "ops \<noteq> [] \<Longrightarrow> drawable_layers ops (Some wm) = Inl e \<Longrightarrow>
     drawable_grid set_iter ops (Some wm) = Inl e"
  by (simp add: drawable_grid_def resolve_wire_map_def Let_def)




subsection \<open>The first absent wire label\<close>

lemma find_append_cases:
  "List.find P (xs @ ys) = (case List.find P xs of None \<Rightarrow> List.find P ys | Some x \<Rightarrow> Some x)"
  by (induction xs) auto

lemma map_wires_first_absent:
  "List.find (\<lambda>w. fmlookup wm w = None) ws = Some w \<Longrightarrow> map_wires wm ws = Inl (KeyError w)"
proof (induction ws)
  case Nil
  then show ?case by simp
next
  case (Cons a ws)
  show ?case
  proof (cases "fmlookup wm a")
    case None
    with Cons.prems show ?thesis by simp
  next
    case (Some i)
    with Cons.prems have "List.find (\<lambda>w. fmlookup wm w = None) ws = Some w" by simp
    from Cons.IH[OF this] Some show ?thesis by simp
  qed
qed

lemma op_occupied_wires_first_absent:
  assumes "List.find (\<lambda>w. fmlookup wm w = None) (wires op) = Some w"
  shows "op_occupied_wires wm op = Inl (KeyError w)"
proof -
  from assms have "wires op \<noteq> []" by auto
  with map_wires_first_absent[OF assms] show ?thesis by (simp add: op_occupied_wires_def)
qed

lemma first_absent_None: "first_absent wm ops = None \<longleftrightarrow> covers wm ops"
  by (auto simp: first_absent_def covers_def find_None_iff)

lemma first_absent_Cons:
  "first_absent wm (op # ops) =
     (case List.find (\<lambda>w. fmlookup wm w = None) (wires op) of
        None \<Rightarrow> first_absent wm ops | Some w \<Rightarrow> Some w)"
  by (simp add: first_absent_def find_append_cases split: option.splits)

lemma for_each_first_absent:
  fixes wm :: "'w wire_map"
  assumes "first_absent wm ops = Some w" and "shape s"
  shows "for_each (layers_step wm) ops s = Inl (KeyError w)"
  using assms
proof (induction ops arbitrary: s)
  case Nil
  then show ?case by (simp add: first_absent_def)
next
  case (Cons op ops)
  show ?case
  proof (cases "List.find (\<lambda>w. fmlookup wm w = None) (wires op)")
    case None
    with Cons.prems(1) have fa: "first_absent wm ops = Some w" by (simp add: first_absent_Cons)
    from None have "\<forall>w \<in> set (wires op). fmlookup wm w \<noteq> None" by (auto simp: find_None_iff)
    from layers_step_effect[OF Cons.prems(2) op_occupied_wires_total[OF this]] obtain s' where
      s': "layers_step wm s op = Inr s'" "shape s'" by blast
    from Cons.IH[OF fa s'(2)] s'(1) show ?thesis by simp
  next
    case (Some w')
    with Cons.prems(1) have "w' = w" by (simp add: first_absent_Cons)
    with op_occupied_wires_first_absent[OF Some] show ?thesis by (simp add: layers_step_def)
  qed
qed

lemma drawable_layers_first_absent:
  "first_absent wm ops = Some w \<Longrightarrow> drawable_layers ops (Some wm) = Inl (KeyError w)"
  using for_each_first_absent[OF _ shape_init, of wm ops w]
  by (simp add: drawable_layers_Some run_layers_def)

lemma first_absent_Some_ops: "first_absent wm ops = Some w \<Longrightarrow> ops \<noteq> []"
  by (auto simp: first_absent_def)

lemma dense_rows_in_range:
  assumes "dense_wire_map wm"
  shows "rows_in_range wm ops"
  unfolding rows_in_range_def
proof (intro ballI)
  fix op i assume "i \<in> mapped_indices wm op"
  with dense_mapped_range[OF assms, of op] show "i < fcard (fmdom wm)" by auto
qed

lemma drawable_grid_returns:
  fixes wm :: "'w wire_map"
  assumes ne: "ops \<noteq> []" and lay: "drawable_layers ops (Some wm) = Inr layers"
    and rng: "rows_in_range wm ops" and it: "iterates set_iter layers"
  shows "\<exists>grid. drawable_grid set_iter ops (Some wm) = Inr grid \<and>
           grid_dims grid (fcard (fmdom wm)) (length layers)"
proof -
  let ?n = "fcard (fmdom wm)"
  let ?g0 = "replicate ?n (replicate (length layers) None) :: 'w grid"
  from drawable_layers_run[OF lay] obtain s where
    s: "run_layers wm ops = Inr s" "layers = ops_in_layer s"
    by (auto simp: resolve_wire_map_def)
  have cov: "covers wm ops" using s(1) by (rule run_layers_covers)
  have ok: "\<forall>L \<in> set layers. \<forall>op \<in> set (set_iter L).
        (\<forall>w \<in> set (wires op). fmlookup wm w \<noteq> None) \<and> mapped_indices wm op \<subseteq> {0..<?n}"
  proof (intro ballI)
    fix L op assume L: "L \<in> set layers" and "op \<in> set (set_iter L)"
    with it have "op \<in> L" by (auto simp: iterates_def)
    with layers_members[OF s(1)] L s(2) have "op \<in> set ops" by blast
    with cov rng
    show "(\<forall>w \<in> set (wires op). fmlookup wm w \<noteq> None) \<and> mapped_indices wm op \<subseteq> {0..<?n}"
      by (auto simp: covers_def rows_in_range_def)
  qed
  from grid_fill_layers_ok[OF grid_dims_replicate ok] obtain g' where
    g': "for_each (grid_fill_layer set_iter wm ?n) (zip [0..<length layers] layers) ?g0 = Inr g'"
        "grid_dims g' ?n (length layers)"
    by blast
  have "drawable_grid set_iter ops (Some wm) = Inr g'"
    using ne lay g'(1) by (simp add: drawable_grid_def resolve_wire_map_def Let_def)
  with g'(2) show ?thesis by blast
qed

text \<open>
  C6, as stated, fails for \<open>drawable_grid\<close>: with one operation on wire \<open>0\<close> and the wire map
  \<open>{0: 5}\<close> no label is absent and \<open>drawable_layers\<close> returns, yet the grid has one row and
  the write to row 5 raises \<open>IndexError\<close>, which is a lookup error too.
\<close>

theorem grid_lookup_failure_counterexample:
  "first_absent (fmap_of_list [(0 :: nat, 5)]) [Operator 0 [0]] = None \<and>
   drawable_layers [Operator 0 [0 :: nat]] (Some (fmap_of_list [(0, 5)])) = Inr [{Operator 0 [0]}] \<and>
   drawable_grid (iter_in_order [Operator 0 [0 :: nat]]) [Operator 0 [0]]
     (Some (fmap_of_list [(0, 5)])) = Inl IndexError"
  by code_simp

text \<open>
  C6, amended. \<open>drawable_layers\<close> fails exactly when some operation with at least one wire
  references a label absent from the wire map. The failure is the \<open>KeyError\<close> of the first
  absent label in processing order, the result is that error and no layer sequence, and
  \<open>drawable_grid\<close> fails with the same error and no grid. When \<open>drawable_layers\<close> returns and
  every mapped wire index is below the number of labels of the wire map, \<open>drawable_grid\<close>
  returns a grid.
\<close>

theorem lookup_failure:
  fixes wm :: "'w wire_map"
  shows "((\<exists>e. drawable_layers ops (Some wm) = Inl e) \<longleftrightarrow>
            (\<exists>op \<in> set ops. wires op \<noteq> [] \<and> (\<exists>w \<in> set (wires op). fmlookup wm w = None))) \<and>
         (\<forall>e. drawable_layers ops (Some wm) = Inl e \<longrightarrow>
            (\<exists>w. first_absent wm ops = Some w \<and> e = KeyError w \<and>
                 drawable_grid set_iter ops (Some wm) = Inl (KeyError w))) \<and>
         (\<forall>layers. drawable_layers ops (Some wm) = Inr layers \<and> rows_in_range wm ops \<and>
              iterates set_iter layers \<longrightarrow>
            (\<exists>grid. drawable_grid set_iter ops (Some wm) = Inr grid))"
proof (intro conjI allI impI)
  show "(\<exists>e. drawable_layers ops (Some wm) = Inl e) \<longleftrightarrow>
            (\<exists>op \<in> set ops. wires op \<noteq> [] \<and> (\<exists>w \<in> set (wires op). fmlookup wm w = None))"
  proof
    assume "\<exists>e. drawable_layers ops (Some wm) = Inl e"
    then have "\<not> covers wm ops" using drawable_layers_total[of wm ops] by auto
    then obtain op w where "op \<in> set ops" "w \<in> set (wires op)" "fmlookup wm w = None"
      by (auto simp: covers_def)
    moreover from this have "wires op \<noteq> []" by auto
    ultimately show "\<exists>op \<in> set ops. wires op \<noteq> [] \<and> (\<exists>w \<in> set (wires op). fmlookup wm w = None)"
      by blast
  next
    assume "\<exists>op \<in> set ops. wires op \<noteq> [] \<and> (\<exists>w \<in> set (wires op). fmlookup wm w = None)"
    then have "\<not> covers wm ops" by (auto simp: covers_def)
    then obtain w where "first_absent wm ops = Some w" by (auto simp: first_absent_None[symmetric])
    from drawable_layers_first_absent[OF this] show "\<exists>e. drawable_layers ops (Some wm) = Inl e"
      by blast
  qed
next
  fix e assume e: "drawable_layers ops (Some wm) = Inl e"
  then have "\<not> covers wm ops" using drawable_layers_total[of wm ops] by auto
  then obtain w where w: "first_absent wm ops = Some w" by (auto simp: first_absent_None[symmetric])
  from drawable_layers_first_absent[OF w] e have ew: "e = KeyError w" by simp
  from drawable_grid_Inl[OF first_absent_Some_ops[OF w] e] ew w
  show "\<exists>w. first_absent wm ops = Some w \<and> e = KeyError w \<and>
                 drawable_grid set_iter ops (Some wm) = Inl (KeyError w)" by auto
next
  fix layers
  assume a: "drawable_layers ops (Some wm) = Inr layers \<and> rows_in_range wm ops \<and>
              iterates set_iter layers"
  show "\<exists>grid. drawable_grid set_iter ops (Some wm) = Inr grid"
  proof (cases "ops = []")
    case True
    then show ?thesis by (simp add: drawable_grid_no_ops)
  next
    case False
    from drawable_grid_returns[OF False] a show ?thesis by blast
  qed
qed

theorem lookup_failure_witness:
  "drawable_layers [Operator 0 [0], Operator 1 [1, 7, 8], Operator 2 [9 :: nat]]
     (Some (fmap_of_list [(0, 0), (1, 1)])) = Inl (KeyError 7) \<and>
   first_absent (fmap_of_list [(0 :: nat, 0 :: nat), (1, 1)])
     [Operator 0 [0], Operator 1 [1, 7, 8], Operator 2 [9 :: nat]] = Some 7 \<and>
   drawable_grid (\<lambda>L. [])
     [Operator 0 [0], Operator 1 [1, 7, 8], Operator 2 [9 :: nat]]
     (Some (fmap_of_list [(0, 0), (1, 1)])) = Inl (KeyError 7) \<and>
   (\<exists>grid. drawable_grid (\<lambda>L. filter (\<lambda>x. x \<in> L) [Operator 0 [0], Operator 1 [1 :: nat]])
       [Operator 0 [0], Operator 1 [1 :: nat]] (Some (fmap_of_list [(0, 0), (1, 1)])) = Inr grid)"
proof -
  let ?wm = "fmap_of_list [(0 :: nat, 0 :: nat), (1, 1)]"
  let ?bad = "[Operator 0 [0], Operator 1 [1, 7, 8], Operator 2 [9 :: nat]]"
  let ?good = "[Operator 0 [0], Operator 1 [1 :: nat]]"
  let ?iter = "\<lambda>L. filter (\<lambda>x. x \<in> L) ?good"
  have e: "drawable_layers ?bad (Some ?wm) = Inl (KeyError 7)" by code_simp
  from lookup_failure[of ?bad ?wm "\<lambda>L. []"] e
  have "\<exists>w. first_absent ?wm ?bad = Some w \<and> KeyError 7 = KeyError w \<and>
          drawable_grid (\<lambda>L. []) ?bad (Some ?wm) = Inl (KeyError w)"
    by blast
  then have b: "first_absent ?wm ?bad = Some 7 \<and>
      drawable_grid (\<lambda>L. []) ?bad (Some ?wm) = Inl (KeyError 7)"
    by auto
  have g: "drawable_layers ?good (Some ?wm) = Inr [{Operator 0 [0], Operator 1 [1]}]" by code_simp
  have d: "rows_in_range ?wm ?good" by code_simp
  have i: "iterates ?iter [{Operator 0 [0], Operator 1 [1 :: nat]}]"
    by (auto simp: iterates_def)
  from lookup_failure[of ?good ?wm ?iter] g d i
  have "\<exists>grid. drawable_grid ?iter ?good (Some ?wm) = Inr grid" by blast
  with e b show ?thesis by blast
qed

subsection \<open>Cells of the grid\<close>

lemma layer_members_disjoint:
  fixes wm :: "'w wire_map"
  assumes run: "run_layers wm ops = Inr s" and l: "l < length (ops_in_layer s)"
    and ab: "a \<in> ops_in_layer s ! l" "b \<in> ops_in_layer s ! l" "a \<noteq> b"
  shows "occupied_set wm a \<inter> occupied_set wm b = {}"
proof -
  from l run_layers_final_layers[OF run] have "ops_in_layer s ! l = (\<lambda>k. ops ! k) ` placed wm ops l"
    by simp
  with ab obtain k1 k2 where
    k: "k1 \<in> placed wm ops l" "k2 \<in> placed wm ops l" "a = ops ! k1" "b = ops ! k2" by auto
  with ab(3) have "k1 \<noteq> k2" by auto
  from same_layer_disjoint[OF run k(1,2) this] k(3,4) show ?thesis by simp
qed

lemma distinct_layer_unique:
  assumes run: "run_layers wm ops = Inr s" and d: "distinct ops" and q: "q < length ops"
    and c: "c < length (ops_in_layer s)"
  shows "ops ! q \<in> ops_in_layer s ! c \<longleftrightarrow> assigned_layer wm ops q = Inr c"
proof -
  from c run_layers_final_layers[OF run] have L: "ops_in_layer s ! c = (\<lambda>k. ops ! k) ` placed wm ops c"
    by simp
  show ?thesis
  proof
    assume "ops ! q \<in> ops_in_layer s ! c"
    with L obtain k where k: "k \<in> placed wm ops c" "ops ! q = ops ! k" by auto
    then have "k < length ops" by (simp add: placed_def)
    with d q k(2) have "q = k" by (simp add: nth_eq_iff_index_eq)
    with k(1) show "assigned_layer wm ops q = Inr c" by (simp add: placed_def)
  next
    assume "assigned_layer wm ops q = Inr c"
    with q have "q \<in> placed wm ops c" by (simp add: placed_def)
    with L show "ops ! q \<in> ops_in_layer s ! c" by blast
  qed
qed

lemma fmran_image: "fset (fmran wm) = (\<lambda>w. the (fmlookup wm w)) ` fset (fmdom wm)"
proof (rule set_eqI)
  fix i
  show "i \<in> fset (fmran wm) \<longleftrightarrow> i \<in> (\<lambda>w. the (fmlookup wm w)) ` fset (fmdom wm)"
  proof
    assume "i \<in> fset (fmran wm)"
    then obtain w where w: "fmlookup wm w = Some i" by (auto simp: fmlookup_ran_iff)
    then have "w \<in> fset (fmdom wm)" by (simp add: fmdomI)
    with w show "i \<in> (\<lambda>w. the (fmlookup wm w)) ` fset (fmdom wm)" by force
  next
    assume "i \<in> (\<lambda>w. the (fmlookup wm w)) ` fset (fmdom wm)"
    then obtain w where w: "w \<in> fset (fmdom wm)" "i = the (fmlookup wm w)" by blast
    then obtain j where "fmlookup wm w = Some j" by (auto elim: fmdomE)
    with w(2) show "i \<in> fset (fmran wm)" by (auto intro: fmranI)
  qed
qed

lemma dense_inj:
  assumes "dense_wire_map wm"
  shows "inj_on (\<lambda>w. the (fmlookup wm w)) (fset (fmdom wm))"
proof (rule eq_card_imp_inj_on)
  show "finite (fset (fmdom wm))" by simp
  have "card ((\<lambda>w. the (fmlookup wm w)) ` fset (fmdom wm)) = card {0..<fcard (fmdom wm)}"
    using assms by (simp add: fmran_image[symmetric] dense_wire_map_def)
  then show "card ((\<lambda>w. the (fmlookup wm w)) ` fset (fmdom wm)) = card (fset (fmdom wm))"
    by (simp add: fcard.rep_eq)
qed

lemma mapped_indices_image:
  assumes "\<forall>w \<in> set (wires op). fmlookup wm w \<noteq> None"
  shows "mapped_indices wm op = (\<lambda>w. the (fmlookup wm w)) ` set (wires op)"
proof (rule set_eqI)
  fix i
  show "i \<in> mapped_indices wm op \<longleftrightarrow> i \<in> (\<lambda>w. the (fmlookup wm w)) ` set (wires op)"
  proof
    assume "i \<in> mapped_indices wm op"
    then obtain w where "w \<in> set (wires op)" "fmlookup wm w = Some i"
      by (auto simp: mapped_indices_iff)
    then show "i \<in> (\<lambda>w. the (fmlookup wm w)) ` set (wires op)" by force
  next
    assume "i \<in> (\<lambda>w. the (fmlookup wm w)) ` set (wires op)"
    then obtain w where w: "w \<in> set (wires op)" "i = the (fmlookup wm w)" by blast
    with assms obtain j where "fmlookup wm w = Some j" by auto
    with w show "i \<in> mapped_indices wm op" by (auto simp: mapped_indices_iff)
  qed
qed

lemma card_mapped_indices:
  assumes dense: "dense_wire_map wm" and cov: "\<forall>w \<in> set (wires op). fmlookup wm w \<noteq> None"
  shows "card (mapped_indices wm op) = card (set (wires op))"
proof -
  have "set (wires op) \<subseteq> fset (fmdom wm)"
  proof
    fix w assume "w \<in> set (wires op)"
    with cov obtain i where "fmlookup wm w = Some i" by auto
    then show "w \<in> fset (fmdom wm)" by (simp add: fmdomI)
  qed
  with dense_inj[OF dense] have "inj_on (\<lambda>w. the (fmlookup wm w)) (set (wires op))"
    by (rule inj_on_subset)
  then show ?thesis by (simp add: mapped_indices_image[OF cov] card_image)
qed

lemma op_rows_subset_occupied:
  assumes "dense_wire_map wm"
  shows "op_rows wm (fcard (fmdom wm)) op \<subseteq> occupied_set wm op"
proof (cases "wires op = []")
  case True
  with assms show ?thesis by (simp add: op_rows_def occupied_set_def dense_wire_map_def)
next
  case False
  with mapped_subset_occupied[OF False] show ?thesis by (simp add: op_rows_def)
qed

lemma op_rows_range:
  assumes "dense_wire_map wm"
  shows "op_rows wm (fcard (fmdom wm)) op \<subseteq> {0..<fcard (fmdom wm)}"
  using dense_mapped_range[OF assms, of op] by (simp add: op_rows_def)

lemma grid_cell_iff:
  fixes wm :: "'w wire_map"
  assumes ne: "ops \<noteq> []" and lay: "drawable_layers ops (Some wm) = Inr layers"
    and dense: "dense_wire_map wm" and it: "iterates set_iter layers"
  shows "\<exists>grid. drawable_grid set_iter ops (Some wm) = Inr grid \<and>
     grid_dims grid (fcard (fmdom wm)) (length layers) \<and>
     (\<forall>r < fcard (fmdom wm). \<forall>c < length layers. \<forall>op.
        grid ! r ! c = Some op \<longleftrightarrow> op \<in> layers ! c \<and> r \<in> op_rows wm (fcard (fmdom wm)) op) \<and>
     (\<forall>r < fcard (fmdom wm). \<forall>c < length layers.
        grid ! r ! c = None \<longleftrightarrow> (\<forall>op \<in> layers ! c. r \<notin> op_rows wm (fcard (fmdom wm)) op))"
proof -
  let ?n = "fcard (fmdom wm)"
  from drawable_layers_run[OF lay] obtain s where
    s: "run_layers wm ops = Inr s" "layers = ops_in_layer s"
    by (auto simp: resolve_wire_map_def)
  from drawable_grid_cells[OF ne lay dense it] obtain grid where
    g: "drawable_grid set_iter ops (Some wm) = Inr grid" "grid_dims grid ?n (length layers)"
    and hit: "\<And>r c. r < ?n \<Longrightarrow> c < length layers \<Longrightarrow> \<exists>op \<in> layers ! c. r \<in> op_rows wm ?n op \<Longrightarrow>
        \<exists>op \<in> layers ! c. r \<in> op_rows wm ?n op \<and> grid ! r ! c = Some op"
    and miss: "\<And>r c. r < ?n \<Longrightarrow> c < length layers \<Longrightarrow> \<forall>op \<in> layers ! c. r \<notin> op_rows wm ?n op \<Longrightarrow>
        grid ! r ! c = None"
    by blast
  have uniq: "a = b"
    if "c < length layers" "a \<in> layers ! c" "b \<in> layers ! c"
      "r \<in> op_rows wm ?n a" "r \<in> op_rows wm ?n b" for a b c r
  proof (rule ccontr)
    assume "a \<noteq> b"
    with layer_members_disjoint[OF s(1), of c a b] that(1,2,3) s(2)
    have "occupied_set wm a \<inter> occupied_set wm b = {}" by simp
    with op_rows_subset_occupied[OF dense] that(4,5) show False by blast
  qed
  have some: "grid ! r ! c = Some op \<longleftrightarrow> op \<in> layers ! c \<and> r \<in> op_rows wm ?n op"
    if rc: "r < ?n" "c < length layers" for r c op
  proof
    assume eq: "grid ! r ! c = Some op"
    show "op \<in> layers ! c \<and> r \<in> op_rows wm ?n op"
    proof (cases "\<exists>op' \<in> layers ! c. r \<in> op_rows wm ?n op'")
      case True
      from hit[OF rc True] eq show ?thesis by auto
    next
      case False
      then have "\<forall>op' \<in> layers ! c. r \<notin> op_rows wm ?n op'" by blast
      from miss[OF rc this] eq show ?thesis by simp
    qed
  next
    assume a: "op \<in> layers ! c \<and> r \<in> op_rows wm ?n op"
    then have "\<exists>op' \<in> layers ! c. r \<in> op_rows wm ?n op'" by blast
    from hit[OF rc this] obtain op' where
      op': "op' \<in> layers ! c" "r \<in> op_rows wm ?n op'" "grid ! r ! c = Some op'" by blast
    from uniq[OF rc(2) op'(1) _ op'(2)] a have "op' = op" by blast
    with op'(3) show "grid ! r ! c = Some op" by simp
  qed
  have none: "grid ! r ! c = None \<longleftrightarrow> (\<forall>op \<in> layers ! c. r \<notin> op_rows wm ?n op)"
    if rc: "r < ?n" "c < length layers" for r c
  proof
    assume "grid ! r ! c = None"
    with some[OF rc] show "\<forall>op \<in> layers ! c. r \<notin> op_rows wm ?n op" by auto
  next
    assume "\<forall>op \<in> layers ! c. r \<notin> op_rows wm ?n op"
    from miss[OF rc this] show "grid ! r ! c = None" .
  qed
  from g some none show ?thesis by blast
qed

text \<open>
  C8, as stated, fails: under the covering wire map \<open>{0: 0, 1: 0}\<close>, which sends two labels
  to one index, a single operation on the wires \<open>0\<close> and \<open>1\<close> has two different wires but is
  written to one cell only, \<open>grid[0][0]\<close>.
\<close>

theorem grid_cells_counterexample:
  "distinct [Operator 0 [0, 1 :: nat]] \<and>
   first_absent (fmap_of_list [(0 :: nat, 0), (1, 0)]) [Operator 0 [0, 1]] = None \<and>
   card (set (wires (Operator 0 [0, 1 :: nat]))) = 2 \<and>
   drawable_grid (iter_in_order [Operator 0 [0, 1 :: nat]]) [Operator 0 [0, 1]]
     (Some (fmap_of_list [(0, 0), (1, 0)])) = Inr [[Some (Operator 0 [0, 1])], [None]]"
  by code_simp

text \<open>
  C8, amended. For pairwise different operations and a covering wire map whose indices are
  exactly \<open>0..<n\<close> for its \<open>n\<close> labels (so that it is injective), \<open>drawable_grid\<close>
  returns a grid in which every cell is empty or holds one operation of the column's layer.
  The cells holding a given operation are exactly its rows in the one column of its layer:
  for an operation with wires the rows of its mapped wire indices, as many cells as it has
  different wires, while the rows of its span that it does not reference stay empty; for an
  operation without wires every row.
\<close>

theorem grid_cells:
  fixes wm :: "'w wire_map"
  assumes d: "distinct ops" and lay: "drawable_layers ops (Some wm) = Inr layers"
    and dense: "dense_wire_map wm" and it: "iterates set_iter layers"
    and q: "q < length ops"
  shows "\<exists>grid a. drawable_grid set_iter ops (Some wm) = Inr grid \<and>
     assigned_layer wm ops q = Inr a \<and> a < length layers \<and>
     (\<forall>r < fcard (fmdom wm). \<forall>c < length layers.
        grid ! r ! c = None \<or> (\<exists>op \<in> layers ! c. grid ! r ! c = Some op)) \<and>
     {(r, c). r < fcard (fmdom wm) \<and> c < length layers \<and> grid ! r ! c = Some (ops ! q)}
       = op_rows wm (fcard (fmdom wm)) (ops ! q) \<times> {a} \<and>
     (wires (ops ! q) \<noteq> [] \<longrightarrow>
        card {(r, c). r < fcard (fmdom wm) \<and> c < length layers \<and> grid ! r ! c = Some (ops ! q)}
          = card (set (wires (ops ! q))) \<and>
        (\<forall>r \<in> occupied_set wm (ops ! q) - mapped_indices wm (ops ! q). grid ! r ! a = None)) \<and>
     (wires (ops ! q) = [] \<longrightarrow> (\<forall>r < fcard (fmdom wm). grid ! r ! a = Some (ops ! q)))"
proof -
  let ?n = "fcard (fmdom wm)"
  let ?op = "ops ! q"
  from q have ne: "ops \<noteq> []" by auto
  from drawable_layers_run[OF lay] obtain s where
    s: "run_layers wm ops = Inr s" "layers = ops_in_layer s"
    by (auto simp: resolve_wire_map_def)
  have cov: "\<forall>w \<in> set (wires ?op). fmlookup wm w \<noteq> None"
    using covers_nth[OF run_layers_covers[OF s(1)] q] .
  from grid_cell_iff[OF ne lay dense it] obtain grid where
    g: "drawable_grid set_iter ops (Some wm) = Inr grid"
    and some: "\<And>r c op. r < ?n \<Longrightarrow> c < length layers \<Longrightarrow>
        grid ! r ! c = Some op \<longleftrightarrow> op \<in> layers ! c \<and> r \<in> op_rows wm ?n op"
    and none: "\<And>r c. r < ?n \<Longrightarrow> c < length layers \<Longrightarrow>
        grid ! r ! c = None \<longleftrightarrow> (\<forall>op \<in> layers ! c. r \<notin> op_rows wm ?n op)"
    by blast
  from assigned_layer_bound[OF s(1) q] obtain a where
    a: "a \<le> max_layer s" "assigned_layer wm ops q = Inr a" by blast
  have alen: "a < length layers"
    using run_layers_final_layers(1)[OF s(1)] a(1) s(2) by simp
  have member: "?op \<in> layers ! c \<longleftrightarrow> c = a" if "c < length layers" for c
    using distinct_layer_unique[OF s(1) d q, of c] that s(2) a(2) by auto
  have rows: "op_rows wm ?n ?op \<subseteq> {0..<?n}" by (rule op_rows_range[OF dense])
  have cells: "{(r, c). r < ?n \<and> c < length layers \<and> grid ! r ! c = Some ?op}
       = op_rows wm ?n ?op \<times> {a}"
  proof (rule set_eqI)
    fix p :: "nat \<times> nat"
    obtain r c where p: "p = (r, c)" by (cases p)
    show "p \<in> {(r, c). r < ?n \<and> c < length layers \<and> grid ! r ! c = Some ?op}
       \<longleftrightarrow> p \<in> op_rows wm ?n ?op \<times> {a}"
    proof
      assume "p \<in> {(r, c). r < ?n \<and> c < length layers \<and> grid ! r ! c = Some ?op}"
      with p have rc: "r < ?n" "c < length layers" "grid ! r ! c = Some ?op" by simp_all
      from some[OF rc(1,2), of ?op] rc(3) have "?op \<in> layers ! c" "r \<in> op_rows wm ?n ?op"
        by blast+
      with member[OF rc(2)] p show "p \<in> op_rows wm ?n ?op \<times> {a}" by simp
    next
      assume "p \<in> op_rows wm ?n ?op \<times> {a}"
      with p have r: "r \<in> op_rows wm ?n ?op" and c: "c = a" by simp_all
      from r rows have rn: "r < ?n" by auto
      from member[OF alen] have "?op \<in> layers ! a" by simp
      with some[OF rn alen] r have "grid ! r ! a = Some ?op" by simp
      with rn alen c p show "p \<in> {(r, c). r < ?n \<and> c < length layers \<and> grid ! r ! c = Some ?op}"
        by simp
    qed
  qed
  have atmost: "\<forall>r < ?n. \<forall>c < length layers.
        grid ! r ! c = None \<or> (\<exists>op \<in> layers ! c. grid ! r ! c = Some op)"
  proof (intro allI impI)
    fix r c assume rc: "r < ?n" "c < length layers"
    show "grid ! r ! c = None \<or> (\<exists>op \<in> layers ! c. grid ! r ! c = Some op)"
    proof (cases "grid ! r ! c")
      case None
      then show ?thesis by simp
    next
      case (Some op)
      with some[OF rc] show ?thesis by auto
    qed
  qed
  have wired: "card {(r, c). r < ?n \<and> c < length layers \<and> grid ! r ! c = Some ?op}
          = card (set (wires ?op)) \<and>
        (\<forall>r \<in> occupied_set wm ?op - mapped_indices wm ?op. grid ! r ! a = None)"
    if w: "wires ?op \<noteq> []"
  proof
    have "card (op_rows wm ?n ?op \<times> {a}) = card (mapped_indices wm ?op)"
      using w by (simp add: op_rows_def card_cartesian_product)
    also have "\<dots> = card (set (wires ?op))" by (rule card_mapped_indices[OF dense cov])
    finally show "card {(r, c). r < ?n \<and> c < length layers \<and> grid ! r ! c = Some ?op}
          = card (set (wires ?op))" by (simp only: cells)
    show "\<forall>r \<in> occupied_set wm ?op - mapped_indices wm ?op. grid ! r ! a = None"
    proof
      fix r assume r: "r \<in> occupied_set wm ?op - mapped_indices wm ?op"
      from w obtain x where "x \<in> set (wires ?op)" by (cases "wires ?op") auto
      with cov obtain i where "fmlookup wm x = Some i" by auto
      with \<open>x \<in> set (wires ?op)\<close> have "i \<in> mapped_indices wm ?op"
        by (auto simp: mapped_indices_iff)
      then have ne: "mapped_indices wm ?op \<noteq> {}" by blast
      then have "Max (mapped_indices wm ?op) \<in> mapped_indices wm ?op"
        by (simp add: finite_mapped_indices)
      with dense_mapped_range[OF dense, of ?op] have "Max (mapped_indices wm ?op) < ?n" by auto
      moreover from r w have "r \<le> Max (mapped_indices wm ?op)" by (simp add: occupied_set_def)
      ultimately have rn: "r < ?n" by simp
      have "\<forall>op' \<in> layers ! a. r \<notin> op_rows wm ?n op'"
      proof
        fix op' assume op': "op' \<in> layers ! a"
        show "r \<notin> op_rows wm ?n op'"
        proof
          assume in': "r \<in> op_rows wm ?n op'"
          from r w have "r \<notin> op_rows wm ?n ?op" by (simp add: op_rows_def)
          with in' have diff: "op' \<noteq> ?op" by auto
          from member[OF alen] have "?op \<in> layers ! a" by simp
          with layer_members_disjoint[OF s(1), of a op' ?op] op' diff alen s(2)
          have "occupied_set wm op' \<inter> occupied_set wm ?op = {}" by simp
          with op_rows_subset_occupied[OF dense, of op'] in' r show False by blast
        qed
      qed
      with none[OF rn alen] show "grid ! r ! a = None" by simp
    qed
  qed
  have broadcast: "\<forall>r < ?n. grid ! r ! a = Some ?op" if w: "wires ?op = []"
  proof (intro allI impI)
    fix r assume rn: "r < ?n"
    with w have "r \<in> op_rows wm ?n ?op" by (simp add: op_rows_def)
    moreover from member[OF alen] have "?op \<in> layers ! a" by simp
    ultimately show "grid ! r ! a = Some ?op" using some[OF rn alen] by simp
  qed
  from g a(2) alen atmost cells wired broadcast show ?thesis by blast
qed

theorem grid_cells_witness:
  "\<exists>grid a.
     drawable_grid (\<lambda>L. filter (\<lambda>x. x \<in> L) [Operator 0 [0, 3], Operator 1 [1 :: nat]])
       [Operator 0 [0, 3], Operator 1 [1 :: nat]]
       (Some (fmap_of_list [(0, 0), (1, 1), (2, 2), (3, 3)])) = Inr grid \<and>
     assigned_layer (fmap_of_list [(0 :: nat, 0 :: nat), (1, 1), (2, 2), (3, 3)])
       [Operator 0 [0, 3], Operator 1 [1 :: nat]] 0 = Inr a \<and>
     a < length [{Operator 0 [0, 3]}, {Operator 1 [1 :: nat]}] \<and>
     card {(r, c). r < fcard (fmdom (fmap_of_list [(0 :: nat, 0 :: nat), (1, 1), (2, 2), (3, 3)])) \<and>
                   c < length [{Operator 0 [0, 3]}, {Operator 1 [1 :: nat]}] \<and>
                   grid ! r ! c = Some ([Operator 0 [0, 3], Operator 1 [1 :: nat]] ! 0)}
       = card (set (wires ([Operator 0 [0, 3], Operator 1 [1 :: nat]] ! 0))) \<and>
     grid ! 1 ! a = None"
proof -
  let ?wm = "fmap_of_list [(0 :: nat, 0 :: nat), (1, 1), (2, 2), (3, 3)]"
  let ?ops = "[Operator 0 [0, 3], Operator 1 [1 :: nat]]"
  let ?layers = "[{Operator 0 [0, 3]}, {Operator 1 [1 :: nat]}]"
  let ?iter = "\<lambda>L. filter (\<lambda>x. x \<in> L) ?ops"
  have d: "distinct ?ops" by simp
  have lay: "drawable_layers ?ops (Some ?wm) = Inr ?layers" by code_simp
  have dense: "dense_wire_map ?wm" by code_simp
  have it: "iterates ?iter ?layers" by (auto simp: iterates_def)
  have q: "0 < length ?ops" by simp
  have wn: "wires (?ops ! 0) \<noteq> []" by simp
  have m: "1 \<in> occupied_set ?wm (?ops ! 0) - mapped_indices ?wm (?ops ! 0)" by code_simp
  from grid_cells[OF d lay dense it q] obtain grid a where
    g: "drawable_grid ?iter ?ops (Some ?wm) = Inr grid" "assigned_layer ?wm ?ops 0 = Inr a"
       "a < length ?layers"
    and w: "wires (?ops ! 0) \<noteq> [] \<longrightarrow>
        card {(r, c). r < fcard (fmdom ?wm) \<and> c < length ?layers \<and> grid ! r ! c = Some (?ops ! 0)}
          = card (set (wires (?ops ! 0))) \<and>
        (\<forall>r \<in> occupied_set ?wm (?ops ! 0) - mapped_indices ?wm (?ops ! 0). grid ! r ! a = None)"
    by blast
  from w wn have c: "card {(r, c). r < fcard (fmdom ?wm) \<and> c < length ?layers \<and>
        grid ! r ! c = Some (?ops ! 0)} = card (set (wires (?ops ! 0)))"
    and p: "\<forall>r \<in> occupied_set ?wm (?ops ! 0) - mapped_indices ?wm (?ops ! 0). grid ! r ! a = None"
    by blast+
  from p m have "grid ! 1 ! a = None" by blast
  with g c show ?thesis by blast
qed

end
